theory Spec2Isabelle
  imports Complex_Main "HOL-Library.Monad_Syntax"
begin

section \<open>C doubles\<close>

text \<open>
  The solver computes with C \<^verbatim>\<open>double\<close>. The model keeps what the control flow of
  \<^verbatim>\<open>pso.c\<close> depends on: the two infinities, NaN, overflow to an infinity beyond
  \<^verbatim>\<open>DBL_MAX\<close>, and the IEEE comparisons, in which every comparison with a NaN is
  false. A finite value is a real number; the rounding of a finite result to the nearest
  double is not modelled, and a zero has no sign (the only zero divisors of \<^verbatim>\<open>pso.c\<close>
  are converted integers, which are positive zeros).
\<close>

datatype dbl = Fin real | PInf | NInf | NaN

text \<open>The value of \<^verbatim>\<open>DBL_MAX\<close>, which is \<open>2 ^ 1024 - 2 ^ 971\<close>.\<close>

definition DBL_MAX_r :: real where
  "DBL_MAX_r = 179769313486231570814527423731704356798070567525844996598917476803157260780028538760589558632766878171540458953514382464234321326889464182768467546703537516986049910576551282076245490090389328944075868508455133942304583236903222948165808559332123348274797826204144723168738177180919299881250404026184124858368"

definition DBL_MAX :: dbl where
  "DBL_MAX = Fin DBL_MAX_r"

definition rnd :: "real \<Rightarrow> dbl" where
  "rnd r = (if r > DBL_MAX_r then PInf else if r < - DBL_MAX_r then NInf else Fin r)"

fun dneg :: "dbl \<Rightarrow> dbl" where
  "dneg (Fin a) = Fin (- a)"
| "dneg PInf = NInf"
| "dneg NInf = PInf"
| "dneg NaN = NaN"

fun dadd :: "dbl \<Rightarrow> dbl \<Rightarrow> dbl" where
  "dadd NaN y = NaN"
| "dadd x NaN = NaN"
| "dadd PInf NInf = NaN"
| "dadd NInf PInf = NaN"
| "dadd PInf y = PInf"
| "dadd x PInf = PInf"
| "dadd NInf y = NInf"
| "dadd x NInf = NInf"
| "dadd (Fin a) (Fin b) = rnd (a + b)"

definition dsub :: "dbl \<Rightarrow> dbl \<Rightarrow> dbl" where
  "dsub x y = dadd x (dneg y)"

definition signed_inf :: "bool \<Rightarrow> dbl" where
  "signed_inf positive = (if positive then PInf else NInf)"

fun dmul :: "dbl \<Rightarrow> dbl \<Rightarrow> dbl" where
  "dmul NaN y = NaN"
| "dmul x NaN = NaN"
| "dmul (Fin a) (Fin b) = rnd (a * b)"
| "dmul (Fin a) PInf = (if a = 0 then NaN else signed_inf (0 < a))"
| "dmul (Fin a) NInf = (if a = 0 then NaN else signed_inf (a < 0))"
| "dmul PInf (Fin b) = (if b = 0 then NaN else signed_inf (0 < b))"
| "dmul NInf (Fin b) = (if b = 0 then NaN else signed_inf (b < 0))"
| "dmul PInf PInf = PInf"
| "dmul NInf NInf = PInf"
| "dmul PInf NInf = NInf"
| "dmul NInf PInf = NInf"

text \<open>Division; a zero divisor is a positive zero.\<close>

fun ddiv :: "dbl \<Rightarrow> dbl \<Rightarrow> dbl" where
  "ddiv NaN y = NaN"
| "ddiv x NaN = NaN"
| "ddiv (Fin a) (Fin b) =
     (if b = 0 then (if a = 0 then NaN else signed_inf (0 < a)) else rnd (a / b))"
| "ddiv (Fin a) PInf = Fin 0"
| "ddiv (Fin a) NInf = Fin 0"
| "ddiv PInf (Fin b) = signed_inf (0 \<le> b)"
| "ddiv NInf (Fin b) = signed_inf (b < 0)"
| "ddiv x y = NaN"

text \<open>The C operators \<^verbatim>\<open><\<close>, \<^verbatim>\<open><=\<close> and \<^verbatim>\<open>>\<close> on doubles.\<close>

fun dlt :: "dbl \<Rightarrow> dbl \<Rightarrow> bool" where
  "dlt NaN y = False"
| "dlt x NaN = False"
| "dlt (Fin a) (Fin b) = (a < b)"
| "dlt x NInf = False"
| "dlt PInf y = False"
| "dlt NInf y = True"
| "dlt x PInf = True"

fun dle :: "dbl \<Rightarrow> dbl \<Rightarrow> bool" where
  "dle NaN y = False"
| "dle x NaN = False"
| "dle (Fin a) (Fin b) = (a \<le> b)"
| "dle NInf y = True"
| "dle x PInf = True"
| "dle x NInf = False"
| "dle PInf y = False"

definition dgt :: "dbl \<Rightarrow> dbl \<Rightarrow> bool" where
  "dgt x y = dlt y x"

text \<open>\<^verbatim>\<open>fmod\<close> of the C library: the remainder of the division truncated towards zero.\<close>

definition c_trunc :: "real \<Rightarrow> int" where
  "c_trunc r = (if 0 \<le> r then \<lfloor>r\<rfloor> else \<lceil>r\<rceil>)"

fun fmod :: "dbl \<Rightarrow> dbl \<Rightarrow> dbl" where
  "fmod NaN y = NaN"
| "fmod x NaN = NaN"
| "fmod PInf y = NaN"
| "fmod NInf y = NaN"
| "fmod (Fin a) PInf = Fin a"
| "fmod (Fin a) NInf = Fin a"
| "fmod (Fin a) (Fin b) = (if b = 0 then NaN else Fin (a - b * of_int (c_trunc (a / b))))"

fun dsqrt :: "dbl \<Rightarrow> dbl" where
  "dsqrt (Fin a) = (if a < 0 then NaN else Fin (sqrt a))"
| "dsqrt PInf = PInf"
| "dsqrt x = NaN"

text \<open>
  Conversions between \<^verbatim>\<open>int\<close> and \<^verbatim>\<open>double\<close>. The conversion of a double to
  \<^verbatim>\<open>int\<close> truncates towards zero and is undefined (\<open>None\<close>) for a NaN, an infinity
  and a value outside the range of \<^verbatim>\<open>int\<close>.
\<close>

definition INT_MAX :: int where
  "INT_MAX = 2147483647"

definition INT_MIN :: int where
  "INT_MIN = - 2147483648"

definition dbl_of_int :: "int \<Rightarrow> dbl" where
  "dbl_of_int k = Fin (of_int k)"

fun int_of_dbl :: "dbl \<Rightarrow> int option" where
  "int_of_dbl (Fin a) =
     (if INT_MIN \<le> c_trunc a \<and> c_trunc a \<le> INT_MAX then Some (c_trunc a) else None)"
| "int_of_dbl x = None"

section \<open>Constants and structures of \<^verbatim>\<open>pso.h\<close>\<close>

definition PSO_MAX_SIZE :: int where
  "PSO_MAX_SIZE = 100"

definition PSO_INERTIA :: dbl where
  "PSO_INERTIA = Fin (7298 / 10000)"

definition PSO_NHOOD_GLOBAL :: int where
  "PSO_NHOOD_GLOBAL = 0"

definition PSO_NHOOD_RING :: int where
  "PSO_NHOOD_RING = 1"

definition PSO_NHOOD_RANDOM :: int where
  "PSO_NHOOD_RANDOM = 2"

definition PSO_W_CONST :: int where
  "PSO_W_CONST = 0"

definition PSO_W_LIN_DEC :: int where
  "PSO_W_LIN_DEC = 1"

text \<open>
  \<^verbatim>\<open>pso_result_t\<close>: the caller's buffer \<^verbatim>\<open>gbest\<close> is a list, whose length is the
  number of doubles the caller allocated.
\<close>

record pso_result_t =
  error :: dbl
  gbest :: "dbl list"

text \<open>
  \<^verbatim>\<open>pso_settings_t\<close>. The field \<^verbatim>\<open>size\<close> is named \<open>size_s\<close> here. The fields of type
  \<^verbatim>\<open>int\<close> are integers of HOL: the arithmetic of \<^verbatim>\<open>pso.c\<close> on them is taken in the
  range where it does not overflow.
\<close>

record pso_settings_t =
  dim :: int
  range_lo :: "dbl list"
  range_hi :: "dbl list"
  goal :: dbl
  size_s :: int
  print_every :: int
  steps :: int
  step :: int
  c1 :: dbl
  c2 :: dbl
  w_max :: dbl
  w_min :: dbl
  clamp_pos :: int
  nhood_strategy :: int
  nhood_size :: int
  w_strategy :: int

section \<open>Swarm size and inertia\<close>

text \<open>
  \<^verbatim>\<open>int size = 10. + 2. * sqrt(dim); return (size > PSO_MAX_SIZE ? PSO_MAX_SIZE : size);\<close>
\<close>

definition pso_calc_swarm_size :: "int \<Rightarrow> int option" where
  "pso_calc_swarm_size d =
     (case int_of_dbl (dadd (Fin 10) (dmul (Fin 2) (dsqrt (dbl_of_int d)))) of
        None \<Rightarrow> None
      | Some sz \<Rightarrow> Some (if sz > PSO_MAX_SIZE then PSO_MAX_SIZE else sz))"

text \<open>Division of C on \<^verbatim>\<open>int\<close> truncates towards zero.\<close>

definition c_div :: "int \<Rightarrow> int \<Rightarrow> int" where
  "c_div a b = sgn a * sgn b * (\<bar>a\<bar> div \<bar>b\<bar>)"

definition calc_inertia_lin_dec :: "int \<Rightarrow> pso_settings_t \<Rightarrow> dbl" where
  "calc_inertia_lin_dec stp st =
     (let dec_stage = c_div (3 * steps st) 4 in
      if stp \<le> dec_stage
      then dadd (w_min st)
             (ddiv (dmul (dsub (w_max st) (w_min st)) (dbl_of_int (dec_stage - stp)))
                   (dbl_of_int dec_stage))
      else w_min st)"

text \<open>
  \<^verbatim>\<open>pso_settings_new\<close>. It leaves the field \<^verbatim>\<open>step\<close> of the allocated structure
  unassigned; \<open>step0\<close> stands for what the memory holds. A negative \<open>d\<close> makes the
  allocation of the bounds fail (\<open>None\<close>, the NULL of the source).
\<close>

definition pso_settings_new :: "int \<Rightarrow> int \<Rightarrow> dbl \<Rightarrow> dbl \<Rightarrow> pso_settings_t option" where
  "pso_settings_new step0 d lo hi =
     (if d < 0 then None
      else case pso_calc_swarm_size d of
        None \<Rightarrow> None
      | Some sz \<Rightarrow> Some \<lparr>
          dim = d,
          range_lo = replicate (nat d) lo,
          range_hi = replicate (nat d) hi,
          goal = Fin (1 / 100000),
          size_s = sz,
          print_every = 1000,
          steps = 100000,
          step = step0,
          c1 = Fin (1496 / 1000),
          c2 = Fin (1496 / 1000),
          w_max = PSO_INERTIA,
          w_min = Fin (3 / 10),
          clamp_pos = 1,
          nhood_strategy = PSO_NHOOD_RING,
          nhood_size = 5,
          w_strategy = PSO_W_LIN_DEC \<rparr>)"

section \<open>The state of \<^verbatim>\<open>pso_solve\<close>\<close>

text \<open>
  The objective function is a pure function of the first \<^verbatim>\<open>dim\<close> coordinates of the
  position it is given. The calls of \<^verbatim>\<open>rand()\<close> return, in order, the values
  \<open>rs 0\<close>, \<open>rs 1\<close>, ... of a sequence \<open>rs\<close> that \<^verbatim>\<open>srand(time(NULL))\<close> selects;
  the state counts the calls made so far. \<^verbatim>\<open>RAND_MAX\<close> is that of the GNU C library.
  No theorem below depends on the values of the sequence.
\<close>

type_synonym obj_fun_t = "dbl list \<Rightarrow> dbl"

type_synonym rand_seq = "nat \<Rightarrow> nat"

definition RAND_MAX :: int where
  "RAND_MAX = 2147483647"

datatype inform_fun_t = Inform_global | Inform_ring | Inform_random

datatype inertia_fun_t = Calc_inertia_lin_dec

text \<open>What the log of the run keeps of one step of the main loop that got past the goal test.\<close>

record step_event =
  ev_step :: int
  ev_regen :: bool
  ev_comm_kept :: bool
  ev_err_before :: dbl
  ev_err_after :: dbl

text \<open>
  The local variables of \<^verbatim>\<open>pso_solve\<close> and the two structures it is given. The arrays
  that \<^verbatim>\<open>pso_solve\<close> allocates are indexed by the loop counters only; they are
  functions of the index. \<^verbatim>\<open>comm\<close> is the list of its \<^verbatim>\<open>size*size\<close> cells.
  The last four fields are not in the source: \<open>err_log\<close> holds every value assigned to
  \<^verbatim>\<open>solution->error\<close>, oldest first; \<open>evals\<close> every value the objective function
  returned; \<open>comm_inits\<close> counts the calls of \<^verbatim>\<open>init_comm_random\<close>; \<open>step_log\<close> has
  one event for each step. Nothing reads them.
\<close>

record solver =
  settings :: pso_settings_t
  solution :: pso_result_t
  pos :: "nat \<Rightarrow> nat \<Rightarrow> dbl"
  vel :: "nat \<Rightarrow> nat \<Rightarrow> dbl"
  pos_b :: "nat \<Rightarrow> nat \<Rightarrow> dbl"
  fit :: "nat \<Rightarrow> dbl"
  fit_b :: "nat \<Rightarrow> dbl"
  pos_nb :: "nat \<Rightarrow> nat \<Rightarrow> dbl"
  comm :: "int list"
  improved :: int
  w :: dbl
  inform_fun :: inform_fun_t
  calc_inertia_fun :: "inertia_fun_t option"
  rng :: nat
  err_log :: "dbl list"
  evals :: "dbl list"
  comm_inits :: nat
  step_log :: "step_event list"

subsection \<open>Memory\<close>

text \<open>
  A read or a write outside a buffer is undefined in C: it is \<open>None\<close>, and so is the
  rest of the run. \<^verbatim>\<open>memmove\<close> of \<open>n\<close> doubles with a negative \<open>n\<close> is a copy of
  more bytes than any buffer holds.
\<close>

definition rd :: "'a list \<Rightarrow> int \<Rightarrow> 'a option" where
  "rd xs k = (if 0 \<le> k \<and> k < int (length xs) then Some (xs ! nat k) else None)"

definition wr :: "'a list \<Rightarrow> int \<Rightarrow> 'a \<Rightarrow> 'a list option" where
  "wr xs k v = (if 0 \<le> k \<and> k < int (length xs) then Some (xs[nat k := v]) else None)"

definition row :: "(nat \<Rightarrow> dbl) \<Rightarrow> int \<Rightarrow> dbl list" where
  "row r n = map r [0..<nat n]"

definition memmove_rows :: "(nat \<Rightarrow> dbl) \<Rightarrow> (nat \<Rightarrow> dbl) \<Rightarrow> int \<Rightarrow> (nat \<Rightarrow> dbl) option" where
  "memmove_rows dst src n =
     (if 0 \<le> n then Some (\<lambda>d. if d < nat n then src d else dst d) else None)"

definition memmove_to_buf :: "dbl list \<Rightarrow> (nat \<Rightarrow> dbl) \<Rightarrow> int \<Rightarrow> dbl list option" where
  "memmove_to_buf dst src n =
     (if 0 \<le> n \<and> n \<le> int (length dst) then Some (row src n @ drop (nat n) dst) else None)"

definition memmove_from_buf :: "(nat \<Rightarrow> dbl) \<Rightarrow> dbl list \<Rightarrow> int \<Rightarrow> (nat \<Rightarrow> dbl) option" where
  "memmove_from_buf dst src n =
     (if 0 \<le> n \<and> n \<le> int (length src)
      then Some (\<lambda>d. if d < nat n then src ! d else dst d) else None)"

subsection \<open>Iteration and random numbers\<close>

text \<open>\<^verbatim>\<open>for (i=0; i<n; i++) body\<close>, stopping where the body is undefined.\<close>

primrec for_each :: "('i \<Rightarrow> 's \<Rightarrow> 's option) \<Rightarrow> 'i list \<Rightarrow> 's \<Rightarrow> 's option" where
  "for_each body [] s = Some s"
| "for_each body (i # is) s =
     (case body i s of None \<Rightarrow> None | Some s' \<Rightarrow> for_each body is s')"

definition for_loop :: "int \<Rightarrow> (nat \<Rightarrow> 's \<Rightarrow> 's option) \<Rightarrow> 's \<Rightarrow> 's option" where
  "for_loop n body s = for_each body [0..<nat n] s"

definition RNG_UNIFORM :: "rand_seq \<Rightarrow> solver \<Rightarrow> dbl \<times> solver" where
  "RNG_UNIFORM rs s =
     (ddiv (dbl_of_int (int (rs (rng s)))) (dbl_of_int RAND_MAX), s\<lparr>rng := Suc (rng s)\<rparr>)"

definition RNG_UNIFORM_INT :: "rand_seq \<Rightarrow> int \<Rightarrow> solver \<Rightarrow> int \<times> solver" where
  "RNG_UNIFORM_INT rs n s = (int (rs (rng s)) mod n, s\<lparr>rng := Suc (rng s)\<rparr>)"

section \<open>Neighbourhoods\<close>

definition inform_global :: "solver \<Rightarrow> solver option" where
  "inform_global s =
     for_loop (size_s (settings s))
       (\<lambda>i s. do {
          r \<leftarrow> memmove_from_buf (pos_nb s i) (gbest (solution s)) (dim (settings s));
          Some (s\<lparr>pos_nb := (pos_nb s)(i := r)\<rparr>) })
       s"

text \<open>
  The inner loop of \<^verbatim>\<open>inform\<close>: \<open>b_n\<close> starts as \<open>j\<close> and becomes \<open>i\<close> where
  \<^verbatim>\<open>comm[i*size + j] && fit_b[i] < fit_b[b_n]\<close>.
\<close>

definition best_informer :: "solver \<Rightarrow> nat \<Rightarrow> nat" where
  "best_informer s j =
     foldl (\<lambda>b_n i.
              if comm s ! (i * nat (size_s (settings s)) + j) \<noteq> 0 \<and> dlt (fit_b s i) (fit_b s b_n)
              then i else b_n)
       j [0..<nat (size_s (settings s))]"

definition inform :: "solver \<Rightarrow> solver option" where
  "inform s =
     for_loop (size_s (settings s))
       (\<lambda>j s. do {
          r \<leftarrow> memmove_rows (pos_nb s j) (pos_b s (best_informer s j)) (dim (settings s));
          Some (s\<lparr>pos_nb := (pos_nb s)(j := r)\<rparr>) })
       s"

definition init_comm_ring :: "solver \<Rightarrow> solver option" where
  "init_comm_ring s =
     (let n = size_s (settings s) in
      for_loop n
        (\<lambda>k s. do {
           let i = int k;
           c \<leftarrow> wr (comm s) (i * n + i) 1;
           c \<leftarrow> (if i = 0 then do {
                    c \<leftarrow> wr c (i * n + i + 1) 1;
                    wr c ((i + 1) * n - 1) 1 }
                  else if i = n - 1 then do {
                    c \<leftarrow> wr c (i * n) 1;
                    wr c (i * n + i - 1) 1 }
                  else do {
                    c \<leftarrow> wr c (i * n + i + 1) 1;
                    wr c (i * n + i - 1) 1 });
           Some (s\<lparr>comm := c\<rparr>) })
        (s\<lparr>comm := replicate (nat (n * n)) 0\<rparr>))"

definition inform_ring :: "solver \<Rightarrow> solver option" where
  "inform_ring s = inform s"

definition init_comm_random :: "rand_seq \<Rightarrow> solver \<Rightarrow> solver option" where
  "init_comm_random rs s =
     (let n = size_s (settings s) in
      for_loop n
        (\<lambda>k s. do {
           let i = int k;
           c \<leftarrow> wr (comm s) (i * n + i) 1;
           for_loop (nhood_size (settings s))
             (\<lambda>_ s. do {
                let (j, s) = RNG_UNIFORM_INT rs n s;
                c \<leftarrow> wr (comm s) (i * n + j) 1;
                Some (s\<lparr>comm := c\<rparr>) })
             (s\<lparr>comm := c\<rparr>) })
        (s\<lparr>comm := replicate (nat (n * n)) 0, comm_inits := Suc (comm_inits s)\<rparr>))"

definition inform_random :: "rand_seq \<Rightarrow> solver \<Rightarrow> solver option" where
  "inform_random rs s = do {
     s \<leftarrow> (if improved s = 0 then init_comm_random rs s else Some s);
     inform s }"

text \<open>The call through the pointer \<^verbatim>\<open>inform_fun\<close>.\<close>

definition call_inform_fun :: "rand_seq \<Rightarrow> solver \<Rightarrow> solver option" where
  "call_inform_fun rs s =
     (case inform_fun s of
        Inform_global \<Rightarrow> inform_global s
      | Inform_ring \<Rightarrow> inform_ring s
      | Inform_random \<Rightarrow> inform_random rs s)"

section \<open>\<^verbatim>\<open>pso_solve\<close>\<close>

subsection \<open>Initialisation of the swarm\<close>

text \<open>The body of the loop over \<open>d\<close> in the initialisation of particle \<open>i\<close>.\<close>

definition init_coord :: "rand_seq \<Rightarrow> nat \<Rightarrow> nat \<Rightarrow> solver \<Rightarrow> solver option" where
  "init_coord rs i d s = do {
     lo \<leftarrow> rd (range_lo (settings s)) (int d);
     hi \<leftarrow> rd (range_hi (settings s)) (int d);
     let (u, s) = RNG_UNIFORM rs s;
     let a = dadd lo (dmul (dsub hi lo) u);
     let (u, s) = RNG_UNIFORM rs s;
     let b = dadd lo (dmul (dsub hi lo) u);
     Some (s\<lparr>pos := (pos s)(i := (pos s i)(d := a)),
             pos_b := (pos_b s)(i := (pos_b s i)(d := a)),
             vel := (vel s)(i := (vel s i)(d := ddiv (dsub a b) (Fin 2)))\<rparr>) }"

text \<open>
  The assignment of a new best: \<^verbatim>\<open>solution->error = fit[i]\<close> and the
  \<^verbatim>\<open>memmove\<close> of \<^verbatim>\<open>pos[i]\<close> into \<^verbatim>\<open>solution->gbest\<close>.
\<close>

definition set_gbest :: "nat \<Rightarrow> solver \<Rightarrow> solver option" where
  "set_gbest i s = do {
     let s = s\<lparr>solution := (solution s)\<lparr>error := fit s i\<rparr>, err_log := err_log s @ [fit s i]\<rparr>;
     g \<leftarrow> memmove_to_buf (gbest (solution s)) (pos s i) (dim (settings s));
     Some (s\<lparr>solution := (solution s)\<lparr>gbest := g\<rparr>\<rparr>) }"

text \<open>The call of the objective function on \<^verbatim>\<open>pos[i]\<close> and the assignment to \<^verbatim>\<open>fit[i]\<close>.\<close>

definition eval_fit :: "obj_fun_t \<Rightarrow> nat \<Rightarrow> solver \<Rightarrow> solver" where
  "eval_fit f i s =
     (let v = f (row (pos s i) (dim (settings s)))
      in s\<lparr>fit := (fit s)(i := v), evals := evals s @ [v]\<rparr>)"

text \<open>
  The end of the initialisation of particle \<open>i\<close>: \<^verbatim>\<open>fit[i] = obj_fun(...)\<close>,
  \<^verbatim>\<open>fit_b[i] = fit[i]\<close>, and the first test against the best error.
\<close>

definition init_fit :: "obj_fun_t \<Rightarrow> nat \<Rightarrow> solver \<Rightarrow> solver" where
  "init_fit f i s = (let s = eval_fit f i s in s\<lparr>fit_b := (fit_b s)(i := fit s i)\<rparr>)"

definition init_gbest :: "nat \<Rightarrow> solver \<Rightarrow> solver option" where
  "init_gbest i s = (if dlt (fit s i) (error (solution s)) then set_gbest i s else Some s)"

definition init_particle :: "obj_fun_t \<Rightarrow> rand_seq \<Rightarrow> nat \<Rightarrow> solver \<Rightarrow> solver option" where
  "init_particle f rs i s = do {
     s \<leftarrow> for_loop (dim (settings s)) (init_coord rs i) s;
     init_gbest i (init_fit f i s) }"

definition init_swarm :: "obj_fun_t \<Rightarrow> rand_seq \<Rightarrow> solver \<Rightarrow> solver option" where
  "init_swarm f rs s =
     for_loop (size_s (settings s)) (init_particle f rs)
       (s\<lparr>solution := (solution s)\<lparr>error := DBL_MAX\<rparr>, err_log := err_log s @ [DBL_MAX]\<rparr>)"

subsection \<open>One step\<close>

text \<open>The new velocity and position of coordinate \<open>d\<close> of particle \<open>i\<close>.\<close>

definition move_coord :: "rand_seq \<Rightarrow> nat \<Rightarrow> nat \<Rightarrow> solver \<Rightarrow> solver" where
  "move_coord rs i d s =
     (let (u, s) = RNG_UNIFORM rs s;
          rho1 = dmul (c1 (settings s)) u;
          (u, s) = RNG_UNIFORM rs s;
          rho2 = dmul (c2 (settings s)) u;
          s = s\<lparr>vel := (vel s)(i := (vel s i)(d :=
                dadd (dadd (dmul (w s) (vel s i d))
                           (dmul rho1 (dsub (pos_b s i d) (pos s i d))))
                     (dmul rho2 (dsub (pos_nb s i d) (pos s i d)))))\<rparr>
      in s\<lparr>pos := (pos s)(i := (pos s i)(d := dadd (pos s i d) (vel s i d)))\<rparr>)"

text \<open>The two treatments of the bounds.\<close>

definition clamp_coord :: "nat \<Rightarrow> nat \<Rightarrow> solver \<Rightarrow> solver option" where
  "clamp_coord i d s = do {
     lo \<leftarrow> rd (range_lo (settings s)) (int d);
     if dlt (pos s i d) lo
     then Some (s\<lparr>pos := (pos s)(i := (pos s i)(d := lo)),
                  vel := (vel s)(i := (vel s i)(d := Fin 0))\<rparr>)
     else do {
       hi \<leftarrow> rd (range_hi (settings s)) (int d);
       if dgt (pos s i d) hi
       then Some (s\<lparr>pos := (pos s)(i := (pos s i)(d := hi)),
                    vel := (vel s)(i := (vel s i)(d := Fin 0))\<rparr>)
       else Some s } }"

definition periodic_coord :: "nat \<Rightarrow> nat \<Rightarrow> solver \<Rightarrow> solver option" where
  "periodic_coord i d s = do {
     lo \<leftarrow> rd (range_lo (settings s)) (int d);
     if dlt (pos s i d) lo
     then do {
       hi \<leftarrow> rd (range_hi (settings s)) (int d);
       Some (s\<lparr>pos := (pos s)(i := (pos s i)(d :=
                 dsub hi (fmod (dsub lo (pos s i d)) (dsub hi lo)))),
               vel := (vel s)(i := (vel s i)(d := Fin 0))\<rparr>) }
     else do {
       hi \<leftarrow> rd (range_hi (settings s)) (int d);
       if dgt (pos s i d) hi
       then Some (s\<lparr>pos := (pos s)(i := (pos s i)(d :=
                      dadd lo (fmod (dsub (pos s i d) hi) (dsub hi lo)))),
                    vel := (vel s)(i := (vel s i)(d := Fin 0))\<rparr>)
       else Some s } }"

definition update_coord :: "rand_seq \<Rightarrow> nat \<Rightarrow> nat \<Rightarrow> solver \<Rightarrow> solver option" where
  "update_coord rs i d s =
     (let s = move_coord rs i d s
      in if clamp_pos (settings s) \<noteq> 0 then clamp_coord i d s else periodic_coord i d s)"

text \<open>The updates of the personal best and of the global best of particle \<open>i\<close>.\<close>

definition update_pbest :: "nat \<Rightarrow> solver \<Rightarrow> solver option" where
  "update_pbest i s =
     (if dlt (fit s i) (fit_b s i)
      then do {
        r \<leftarrow> memmove_rows (pos_b s i) (pos s i) (dim (settings s));
        Some (s\<lparr>fit_b := (fit_b s)(i := fit s i), pos_b := (pos_b s)(i := r)\<rparr>) }
      else Some s)"

definition update_gbest :: "nat \<Rightarrow> solver \<Rightarrow> solver option" where
  "update_gbest i s =
     (if dlt (fit s i) (error (solution s))
      then set_gbest i (s\<lparr>improved := 1\<rparr>)
      else Some s)"

definition update_particle :: "obj_fun_t \<Rightarrow> rand_seq \<Rightarrow> nat \<Rightarrow> solver \<Rightarrow> solver option" where
  "update_particle f rs i s = do {
     s \<leftarrow> for_loop (dim (settings s)) (update_coord rs i) s;
     let s = eval_fit f i s;
     s \<leftarrow> update_pbest i s;
     update_gbest i s }"

text \<open>
  The body of the main loop after the goal test: the informants, the reset of
  \<^verbatim>\<open>improved\<close>, the update of every particle. The printing of the progress bar
  changes nothing of the state and is left out. \<open>log_step\<close> adds the event of the step
  to the log, from the states before the call of \<^verbatim>\<open>inform_fun\<close>, after it, and at the
  end of the step.
\<close>

definition log_step :: "solver \<Rightarrow> solver \<Rightarrow> solver \<Rightarrow> solver" where
  "log_step s s1 s2 = s2\<lparr>step_log := step_log s2 @
     [\<lparr>ev_step = step (settings s), ev_regen = (comm_inits s1 \<noteq> comm_inits s),
       ev_comm_kept = (comm s1 = comm s),
       ev_err_before = error (solution s), ev_err_after = error (solution s2)\<rparr>]\<rparr>"

definition step_body :: "obj_fun_t \<Rightarrow> rand_seq \<Rightarrow> solver \<Rightarrow> solver option" where
  "step_body f rs s = do {
     s1 \<leftarrow> call_inform_fun rs s;
     s2 \<leftarrow> for_loop (size_s (settings s1)) (update_particle f rs) (s1\<lparr>improved := 0\<rparr>);
     Some (log_step s s1 s2) }"

text \<open>The head of the main loop: the step is recorded and the inertia computed.\<close>

definition step_head :: "int \<Rightarrow> solver \<Rightarrow> solver" where
  "step_head stp s =
     (let s = s\<lparr>settings := (settings s)\<lparr>step := stp\<rparr>\<rparr>
      in case calc_inertia_fun s of
           None \<Rightarrow> s
         | Some Calc_inertia_lin_dec \<Rightarrow> s\<lparr>w := calc_inertia_lin_dec stp (settings s)\<rparr>)"

subsection \<open>The main loop\<close>

text \<open>
  The loop test reads \<^verbatim>\<open>settings->steps\<close> at every iteration. The loop ends because
  nothing below the head of the loop writes to the settings, which is proved first.
\<close>

lemma for_each_inv:
  assumes "for_each body xs s = Some s'" and "P s"
    and "\<And>i t t'. i \<in> set xs \<Longrightarrow> P t \<Longrightarrow> body i t = Some t' \<Longrightarrow> P t'"
  shows "P s'"
  using assms
proof (induction xs arbitrary: s)
  case Nil
  then show ?case by simp
next
  case (Cons x xs)
  from Cons.prems(1) obtain t where t: "body x s = Some t" and r: "for_each body xs t = Some s'"
    by (auto split: option.splits)
  have pt: "P t" using Cons.prems(3)[OF _ Cons.prems(2) t] by simp
  show ?case by (rule Cons.IH[OF r pt]) (use Cons.prems(3) in auto)
qed

lemma for_loop_inv:
  assumes "for_loop n body s = Some s'" and "P s"
    and "\<And>i t t'. i < nat n \<Longrightarrow> P t \<Longrightarrow> body i t = Some t' \<Longrightarrow> P t'"
  shows "P s'"
  using assms unfolding for_loop_def by (rule for_each_inv) auto

lemma RNG_UNIFORM_settings [simp]: "settings (snd (RNG_UNIFORM rs s)) = settings s"
  by (simp add: RNG_UNIFORM_def)

lemma inform_global_settings: "inform_global s = Some s' \<Longrightarrow> settings s' = settings s"
  unfolding inform_global_def
  by (erule for_loop_inv[where P="\<lambda>t. settings t = settings s"]) (auto split: bind_splits)

lemma inform_settings: "inform s = Some s' \<Longrightarrow> settings s' = settings s"
  unfolding inform_def
  by (erule for_loop_inv[where P="\<lambda>t. settings t = settings s"]) (auto split: bind_splits)

lemma init_comm_random_settings: "init_comm_random rs s = Some s' \<Longrightarrow> settings s' = settings s"
  unfolding init_comm_random_def Let_def
  apply (erule for_loop_inv[where P="\<lambda>t. settings t = settings s"])
   apply simp
  apply (clarsimp split: bind_splits)
  apply (erule for_loop_inv)
   apply simp
  apply (auto simp: RNG_UNIFORM_INT_def split: bind_splits)
  done

lemma inform_random_settings: "inform_random rs s = Some s' \<Longrightarrow> settings s' = settings s"
  unfolding inform_random_def
  by (fastforce split: bind_splits if_splits
      dest: inform_settings init_comm_random_settings)

lemma call_inform_fun_settings: "call_inform_fun rs s = Some s' \<Longrightarrow> settings s' = settings s"
  unfolding call_inform_fun_def inform_ring_def
  by (auto split: inform_fun_t.splits
      dest: inform_global_settings inform_settings inform_random_settings)

lemma move_coord_settings [simp]: "settings (move_coord rs i d s) = settings s"
  by (simp add: move_coord_def RNG_UNIFORM_def Let_def)

lemma clamp_coord_settings: "clamp_coord i d s = Some s' \<Longrightarrow> settings s' = settings s"
  by (auto simp: clamp_coord_def split: bind_splits if_splits)

lemma periodic_coord_settings: "periodic_coord i d s = Some s' \<Longrightarrow> settings s' = settings s"
  by (auto simp: periodic_coord_def split: bind_splits if_splits)

lemma update_coord_settings: "update_coord rs i d s = Some s' \<Longrightarrow> settings s' = settings s"
  by (auto simp: update_coord_def Let_def split: if_splits
      dest: clamp_coord_settings periodic_coord_settings)

lemma set_gbest_settings: "set_gbest i s = Some s' \<Longrightarrow> settings s' = settings s"
  by (auto simp: set_gbest_def Let_def split: bind_splits)

lemma eval_fit_settings [simp]: "settings (eval_fit f i s) = settings s"
  by (simp add: eval_fit_def Let_def)

lemma update_pbest_settings: "update_pbest i s = Some s' \<Longrightarrow> settings s' = settings s"
  by (auto simp: update_pbest_def split: bind_splits if_splits)

lemma update_gbest_settings: "update_gbest i s = Some s' \<Longrightarrow> settings s' = settings s"
  by (auto simp: update_gbest_def split: if_splits dest: set_gbest_settings)

lemma update_particle_settings:
  assumes "update_particle f rs i s = Some s'" shows "settings s' = settings s"
proof -
  from assms obtain s1 s2 where
    a: "for_loop (dim (settings s)) (update_coord rs i) s = Some s1" and
    b: "update_pbest i (eval_fit f i s1) = Some s2" and
    c: "update_gbest i s2 = Some s'"
    by (auto simp: update_particle_def Let_def split: bind_splits)
  have "settings s1 = settings s"
    by (rule for_loop_inv[OF a, where P="\<lambda>t. settings t = settings s"])
       (auto dest: update_coord_settings)
  with update_pbest_settings[OF b] update_gbest_settings[OF c] show ?thesis by simp
qed

lemma step_body_settings:
  assumes "step_body f rs s = Some s'" shows "settings s' = settings s"
proof -
  from assms obtain s1 s2 where
    a: "call_inform_fun rs s = Some s1" and
    b: "for_loop (size_s (settings s1)) (update_particle f rs) (s1\<lparr>improved := 0\<rparr>) = Some s2" and
    c: "settings s' = settings s2"
    by (auto simp: step_body_def log_step_def split: bind_splits)
  have "settings s2 = settings s1"
    by (rule for_loop_inv[OF b, where P="\<lambda>t. settings t = settings s1"])
       (auto dest: update_particle_settings)
  with call_inform_fun_settings[OF a] c show ?thesis by simp
qed

lemma step_head_settings [simp]: "settings (step_head stp s) = (settings s)\<lparr>step := stp\<rparr>"
  by (simp add: step_head_def Let_def split: option.splits inertia_fun_t.splits)

text \<open>
  \<^verbatim>\<open>for (step=0; step<settings->steps; step++)\<close> with its \<^verbatim>\<open>break\<close> where the
  goal is reached.
\<close>

function step_loop :: "obj_fun_t \<Rightarrow> rand_seq \<Rightarrow> int \<Rightarrow> solver \<Rightarrow> solver option" where
  "step_loop f rs stp s =
     (if stp < steps (settings s)
      then let s1 = step_head stp s
           in if dle (error (solution s1)) (goal (settings s1)) then Some s1
              else case step_body f rs s1 of
                     None \<Rightarrow> None
                   | Some s2 \<Rightarrow> step_loop f rs (stp + 1) s2
      else Some s)"
  by pat_completeness auto
termination
proof (relation "measure (\<lambda>(f, rs, stp, s). nat (steps (settings s) - stp))")
  show "wf (measure (\<lambda>(f, rs, stp, s). nat (steps (settings s) - stp)))" by simp
next
  fix f rs stp s s1 s2
  assume "stp < steps (settings s)" "s1 = step_head stp s" "step_body f rs s1 = Some s2"
  then show "((f, rs, stp + 1, s2), (f, rs, stp, s)) \<in> measure (\<lambda>(f, rs, stp, s). nat (steps (settings s) - stp))"
    using step_body_settings[of f rs s1 s2] by simp
qed

text \<open>
  \<^verbatim>\<open>pso_solve\<close>: the allocations, the two \<^verbatim>\<open>switch\<close> statements, the
  initialisation of the swarm and the main loop. Allocated memory is indeterminate in C;
  here it starts as zeros, and every cell is written before it is read. The result is
  the final state, of which the caller sees \<open>solution\<close> and \<open>settings\<close>.
\<close>

definition select_inform_fun :: "rand_seq \<Rightarrow> solver \<Rightarrow> solver option" where
  "select_inform_fun rs s =
     (if nhood_strategy (settings s) = PSO_NHOOD_GLOBAL then Some (s\<lparr>inform_fun := Inform_global\<rparr>)
      else if nhood_strategy (settings s) = PSO_NHOOD_RING then do {
        s \<leftarrow> init_comm_ring s;
        Some (s\<lparr>inform_fun := Inform_ring\<rparr>) }
      else if nhood_strategy (settings s) = PSO_NHOOD_RANDOM then do {
        s \<leftarrow> init_comm_random rs s;
        Some (s\<lparr>inform_fun := Inform_random\<rparr>) }
      else Some (s\<lparr>inform_fun := Inform_global\<rparr>))"

definition select_inertia_fun :: "solver \<Rightarrow> solver" where
  "select_inertia_fun s =
     (if w_strategy (settings s) = PSO_W_LIN_DEC
      then s\<lparr>calc_inertia_fun := Some Calc_inertia_lin_dec\<rparr>
      else s\<lparr>calc_inertia_fun := None\<rparr>)"

definition solver_new :: "pso_result_t \<Rightarrow> pso_settings_t \<Rightarrow> solver" where
  "solver_new sol st = \<lparr>
     settings = st,
     solution = sol,
     pos = (\<lambda>i d. Fin 0),
     vel = (\<lambda>i d. Fin 0),
     pos_b = (\<lambda>i d. Fin 0),
     fit = (\<lambda>i. Fin 0),
     fit_b = (\<lambda>i. Fin 0),
     pos_nb = (\<lambda>i d. Fin 0),
     comm = replicate (nat (size_s st * size_s st)) 0,
     improved = 0,
     w = PSO_INERTIA,
     inform_fun = Inform_global,
     calc_inertia_fun = None,
     rng = 0,
     err_log = [],
     evals = [],
     comm_inits = 0,
     step_log = [] \<rparr>"

definition pso_init :: "obj_fun_t \<Rightarrow> rand_seq \<Rightarrow> pso_result_t \<Rightarrow> pso_settings_t \<Rightarrow> solver option" where
  "pso_init f rs sol st = do {
     s \<leftarrow> select_inform_fun rs (solver_new sol st);
     init_swarm f rs (select_inertia_fun s) }"

definition pso_solve :: "obj_fun_t \<Rightarrow> rand_seq \<Rightarrow> pso_result_t \<Rightarrow> pso_settings_t \<Rightarrow> solver option" where
  "pso_solve f rs sol st = do {
     s \<leftarrow> pso_init f rs sol st;
     step_loop f rs 0 s }"

section \<open>Predicates of the proofs and inputs of the runs\<close>

text \<open>
  The fields that only the evaluation of a particle and the head of the main loop assign.
  The initialisation of the coordinates, the neighbourhood functions and the update of the
  coordinates do not touch them.
\<close>

definition core :: "solver \<Rightarrow> pso_settings_t \<times> pso_result_t \<times> dbl list \<times> dbl list \<times> (nat \<Rightarrow> dbl) \<times> (nat \<Rightarrow> dbl) \<times> int \<times> step_event list" where
  "core s = (settings s, solution s, err_log s, evals s, fit s, fit_b s, improved s, step_log s)"

text \<open>
  The settings that \<^verbatim>\<open>pso_settings_new(1, -10, 10)\<close> returns (its swarm has 12
  particles), where the unassigned field \<^verbatim>\<open>step\<close> holds 0.
\<close>

definition factory_settings_1 :: pso_settings_t where
  "factory_settings_1 = \<lparr>
     dim = 1, range_lo = [Fin (- 10)], range_hi = [Fin 10], goal = Fin (1 / 100000),
     size_s = 12, print_every = 1000, steps = 100000, step = 0,
     c1 = Fin (1496 / 1000), c2 = Fin (1496 / 1000), w_max = PSO_INERTIA, w_min = Fin (3 / 10),
     clamp_pos = 1, nhood_strategy = PSO_NHOOD_RING, nhood_size = 5, w_strategy = PSO_W_LIN_DEC \<rparr>"

text \<open>
  The inputs on which no access of \<^verbatim>\<open>pso_solve\<close> leaves a buffer: \<^verbatim>\<open>dim\<close> is not
  negative, the buffers of the caller hold at least \<^verbatim>\<open>dim\<close> doubles, and the ring is not
  built for a swarm of one particle, for which \<^verbatim>\<open>init_comm_ring\<close> writes to
  \<^verbatim>\<open>comm[1]\<close>, past the one cell of \<^verbatim>\<open>comm\<close>. \<open>safe\<close> is the part of it that a state
  of the solver keeps.
\<close>

definition safe :: "solver \<Rightarrow> bool" where
  "safe s \<longleftrightarrow> 0 \<le> dim (settings s) \<and>
     dim (settings s) \<le> int (length (range_lo (settings s))) \<and>
     dim (settings s) \<le> int (length (range_hi (settings s))) \<and>
     dim (settings s) \<le> int (length (gbest (solution s)))"

definition buffers_ok :: "pso_settings_t \<Rightarrow> pso_result_t \<Rightarrow> bool" where
  "buffers_ok st sol \<longleftrightarrow> 0 \<le> dim st \<and> dim st \<le> int (length (range_lo st)) \<and>
     dim st \<le> int (length (range_hi st)) \<and> dim st \<le> int (length (gbest sol)) \<and>
     (nhood_strategy st = PSO_NHOOD_RING \<longrightarrow> size_s st \<noteq> 1)"

text \<open>
  A run to which the theorems below are applied: the sphere function of \<^verbatim>\<open>pso.h\<close>,
  the settings of the factory for one dimension, a buffer of one double, and a sequence of
  random numbers.
\<close>

definition pso_sphere :: obj_fun_t where
  "pso_sphere x = foldl (\<lambda>s xi. dadd s (dmul xi xi)) (Fin 0) x"

definition rand_demo :: rand_seq where
  "rand_demo k = (k * 1103515245 + 12345) mod 2147483648"

definition result_demo :: pso_result_t where
  "result_demo = \<lparr>error = Fin 0, gbest = [Fin 0]\<rparr>"

text \<open>
  The log of the values of \<^verbatim>\<open>solution->error\<close> starts with \<^verbatim>\<open>DBL_MAX\<close>, ends
  with the current value, and every value in it is strictly below all the values before it.
\<close>

definition log_ok :: "solver \<Rightarrow> bool" where
  "log_ok s \<longleftrightarrow> err_log s \<noteq> [] \<and> hd (err_log s) = DBL_MAX \<and>
     last (err_log s) = error (solution s) \<and> sorted_wrt (\<lambda>a b. dlt b a) (err_log s)"

text \<open>
  A swarm of one particle in one dimension that runs for one step with the global
  neighbourhood and the constant inertia, after \<^verbatim>\<open>rand()\<close> returned 0 every time. The
  field \<^verbatim>\<open>step\<close> holds 7 before the run.
\<close>

definition settings_small :: pso_settings_t where
  "settings_small = \<lparr>
     dim = 1, range_lo = [Fin 0], range_hi = [Fin 1], goal = Fin (1 / 100000),
     size_s = 1, print_every = 0, steps = 1, step = 7,
     c1 = Fin (1496 / 1000), c2 = Fin (1496 / 1000), w_max = PSO_INERTIA, w_min = Fin (3 / 10),
     clamp_pos = 1, nhood_strategy = PSO_NHOOD_GLOBAL, nhood_size = 5, w_strategy = PSO_W_CONST \<rparr>"

definition rand_zero :: rand_seq where
  "rand_zero k = 0"

text \<open>
  Either the objective function returned a value strictly below \<^verbatim>\<open>DBL_MAX\<close>, or the
  best error is \<^verbatim>\<open>DBL_MAX\<close>, the buffer \<^verbatim>\<open>gbest\<close> holds what it held at the call,
  and the only assignment to \<^verbatim>\<open>solution->error\<close> so far is its initialisation.
\<close>

definition untouched :: "dbl list \<Rightarrow> solver \<Rightarrow> bool" where
  "untouched g0 s \<longleftrightarrow> (\<exists>v\<in>set (evals s). dlt v DBL_MAX) \<or>
     (error (solution s) = DBL_MAX \<and> gbest (solution s) = g0 \<and> err_log s = [DBL_MAX])"

text \<open>An objective function that returns NaN at every point.\<close>

definition obj_nan :: obj_fun_t where
  "obj_nan x = NaN"

text \<open>
  What holds after the initialisation of the particles below \<open>k\<close>: the fitness of each is
  the value of the objective function at its position; none is strictly below the best
  error; and either the best error is still \<^verbatim>\<open>DBL_MAX\<close> and the buffer as the caller
  left it, or the best error is the fitness of the first particle that has it, whose
  position the buffer holds in its first \<^verbatim>\<open>dim\<close> cells.
\<close>

definition init_inv :: "obj_fun_t \<Rightarrow> dbl list \<Rightarrow> nat \<Rightarrow> solver \<Rightarrow> bool" where
  "init_inv f g0 k s \<longleftrightarrow>
     (\<forall>i<k. fit s i = f (row (pos s i) (dim (settings s)))) \<and>
     (\<forall>i<k. \<not> dlt (fit s i) (error (solution s))) \<and>
     ((error (solution s) = DBL_MAX \<and> gbest (solution s) = g0 \<and>
       (\<forall>i<k. \<not> dlt (fit s i) DBL_MAX)) \<or>
      (\<exists>i<k. error (solution s) = fit s i \<and> dlt (fit s i) DBL_MAX \<and>
         (\<forall>j<i. \<not> dle (fit s j) (fit s i)) \<and>
         gbest (solution s) =
           row (pos s i) (dim (settings s)) @ drop (nat (dim (settings s))) g0))"

text \<open>An objective function that returns \<open>+\<infinity>\<close> at every point.\<close>

definition obj_inf :: obj_fun_t where
  "obj_inf x = PInf"

text \<open>
  Particle \<open>i\<close> informs particle \<open>j\<close> where \<^verbatim>\<open>comm[i*size + j]\<close> is not zero.
\<close>

definition informs :: "solver \<Rightarrow> nat \<Rightarrow> nat \<Rightarrow> bool" where
  "informs s i j \<longleftrightarrow> comm s ! (i * nat (size_s (settings s)) + j) \<noteq> 0"

text \<open>
  The scan of \<^verbatim>\<open>inform\<close> after the indices below \<open>m\<close>: the candidate \<open>b\<close> is \<open>j\<close>
  itself, or an informer below \<open>m\<close> that is strictly better than \<open>j\<close> and than which no
  informer of a smaller index is as good; no informer below \<open>m\<close> is strictly better than
  the candidate, and neither is \<open>j\<close>.
\<close>

definition scan_inv :: "solver \<Rightarrow> nat \<Rightarrow> nat \<Rightarrow> nat \<Rightarrow> bool" where
  "scan_inv s j m b \<longleftrightarrow>
     (b = j \<or> (b < m \<and> informs s b j \<and> dlt (fit_b s b) (fit_b s j) \<and>
        (\<forall>k<b. informs s k j \<longrightarrow> \<not> dle (fit_b s k) (fit_b s b)))) \<and>
     (\<forall>k<m. informs s k j \<longrightarrow> \<not> dlt (fit_b s k) (fit_b s b)) \<and>
     \<not> dlt (fit_b s j) (fit_b s b)"

text \<open>
  The outer loop of \<^verbatim>\<open>inform\<close> after the particles below \<open>m\<close>: their rows of
  \<^verbatim>\<open>pos_nb\<close> hold the best positions of their best informers.
\<close>

definition informed :: "solver \<Rightarrow> nat \<Rightarrow> solver \<Rightarrow> bool" where
  "informed s m t \<longleftrightarrow> comm t = comm s \<and> fit_b t = fit_b s \<and> settings t = settings s \<and>
     pos_b t = pos_b s \<and>
     (\<forall>j<m. \<forall>d<nat (dim (settings s)). pos_nb t j d = pos_b s (best_informer s j) d)"

text \<open>
  A ring of two particles whose objective function is constant, so that all the best
  fitnesses tie; \<^verbatim>\<open>rand()\<close> returns 0, 1, 2, ... and the bounds are such that the
  particles start at 0 and at 2.
\<close>

definition settings_ring2 :: pso_settings_t where
  "settings_ring2 = \<lparr>
     dim = 1, range_lo = [Fin 0], range_hi = [Fin 2147483647], goal = Fin (1 / 100000),
     size_s = 2, print_every = 0, steps = 1, step = 0,
     c1 = Fin (1496 / 1000), c2 = Fin (1496 / 1000), w_max = PSO_INERTIA, w_min = Fin (3 / 10),
     clamp_pos = 1, nhood_strategy = PSO_NHOOD_RING, nhood_size = 5, w_strategy = PSO_W_CONST \<rparr>"

definition obj_one :: obj_fun_t where
  "obj_one x = Fin 1"

definition rand_id :: rand_seq where
  "rand_id k = k"

text \<open>
  Bounds so wide that their difference overflows, and a state in which the particle of the
  small run moves fast.
\<close>

definition settings_wide :: pso_settings_t where
  "settings_wide = \<lparr>
     dim = 1, range_lo = [Fin (- DBL_MAX_r)], range_hi = [Fin DBL_MAX_r], goal = Fin (1 / 100000),
     size_s = 1, print_every = 0, steps = 1, step = 0,
     c1 = Fin (1496 / 1000), c2 = Fin (1496 / 1000), w_max = PSO_INERTIA, w_min = Fin (3 / 10),
     clamp_pos = 1, nhood_strategy = PSO_NHOOD_GLOBAL, nhood_size = 5, w_strategy = PSO_W_CONST \<rparr>"

definition solver_fast :: solver where
  "solver_fast = (solver_new result_demo settings_small)\<lparr>vel := (\<lambda>i d. Fin 5)\<rparr>"

text \<open>
  A particle that starts at 2 and moves to 2.7298 in the one step of the run, and an
  objective function that is 1 at 2 and \<open>-\<infinity>\<close> elsewhere.
\<close>

definition settings_long :: pso_settings_t where
  "settings_long = \<lparr>
     dim = 1, range_lo = [Fin 0], range_hi = [Fin 2147483647], goal = Fin (1 / 100000),
     size_s = 1, print_every = 0, steps = 1, step = 0,
     c1 = Fin (1496 / 1000), c2 = Fin (1496 / 1000), w_max = PSO_INERTIA, w_min = Fin (3 / 10),
     clamp_pos = 1, nhood_strategy = PSO_NHOOD_GLOBAL, nhood_size = 5, w_strategy = PSO_W_CONST \<rparr>"

definition obj_drop :: obj_fun_t where
  "obj_drop x = (if x = [Fin 2] then Fin 1 else NInf)"

definition rand_two :: rand_seq where
  "rand_two k = (if k = 0 then 2 else 0)"

text \<open>The function that \<^verbatim>\<open>inform_fun\<close> points to and the log of the steps.\<close>

definition wiring :: "solver \<Rightarrow> inform_fun_t \<times> step_event list" where
  "wiring s = (inform_fun s, step_log s)"


text \<open>
  A run of two steps with the random neighbourhood: the particle starts at 2, where the
  objective function is 5, and moves to positions where it is 3.
\<close>

definition settings_random :: pso_settings_t where
  "settings_random = \<lparr>
     dim = 1, range_lo = [Fin 0], range_hi = [Fin 2147483647], goal = Fin (1 / 100000),
     size_s = 1, print_every = 0, steps = 2, step = 0,
     c1 = Fin (1496 / 1000), c2 = Fin (1496 / 1000), w_max = PSO_INERTIA, w_min = Fin (3 / 10),
     clamp_pos = 1, nhood_strategy = PSO_NHOOD_RANDOM, nhood_size = 1, w_strategy = PSO_W_CONST \<rparr>"

definition obj_two_levels :: obj_fun_t where
  "obj_two_levels x = (if x = [Fin 2] then Fin 5 else Fin 3)"

definition rand_start2 :: rand_seq where
  "rand_start2 k = (if k = 1 then 2 else 0)"


section \<open>What the parts of the solver leave alone\<close>

declare step_loop.simps [simp del]

lemma for_each_append:
  "for_each body (xs @ ys) s = Option.bind (for_each body xs s) (for_each body ys)"
  by (induction xs arbitrary: s) (auto split: option.splits)

lemma for_each_upt_Suc:
  "for_each body [0..<Suc n] s = Option.bind (for_each body [0..<n] s) (body n)"
  by (simp add: for_each_append split: option.splits bind_splits)

lemma for_loop_inv_idx:
  assumes "for_loop n body s = Some s'" and "P 0 s"
    and "\<And>i t t'. i < nat n \<Longrightarrow> P i t \<Longrightarrow> body i t = Some t' \<Longrightarrow> P (Suc i) t'"
  shows "P (nat n) s'"
proof -
  have "for_each body [0..<m] s = Some t \<Longrightarrow> m \<le> nat n \<Longrightarrow> P m t" for m t
  proof (induction m arbitrary: t)
    case 0
    then show ?case using assms(2) by simp
  next
    case (Suc m)
    from Suc.prems(1) obtain u where u: "for_each body [0..<m] s = Some u" and b: "body m u = Some t"
      unfolding for_each_upt_Suc by (auto split: bind_splits)
    have "P m u" using Suc.IH[OF u] Suc.prems(2) by simp
    then show ?case using assms(3)[OF _ _ b] Suc.prems(2) by simp
  qed
  from this[of "nat n" s'] assms(1) show ?thesis by (simp add: for_loop_def)
qed

lemma init_coord_core: "init_coord rs i d s = Some s' \<Longrightarrow> core s' = core s"
  by (auto simp: init_coord_def core_def RNG_UNIFORM_def Let_def split: bind_splits)

lemma init_comm_ring_core: "init_comm_ring s = Some s' \<Longrightarrow> core s' = core s"
  unfolding init_comm_ring_def Let_def
  by (erule for_loop_inv[where P="\<lambda>t. core t = core s"])
     (auto simp: core_def split: bind_splits if_splits)

lemma init_comm_random_core: "init_comm_random rs s = Some s' \<Longrightarrow> core s' = core s"
  unfolding init_comm_random_def Let_def
  apply (erule for_loop_inv[where P="\<lambda>t. core t = core s"])
   apply (simp add: core_def)
  apply (clarsimp split: bind_splits)
  apply (erule for_loop_inv)
   apply (simp add: core_def)
  apply (auto simp: RNG_UNIFORM_INT_def core_def split: bind_splits)
  done

lemma inform_global_core: "inform_global s = Some s' \<Longrightarrow> core s' = core s"
  unfolding inform_global_def
  by (erule for_loop_inv[where P="\<lambda>t. core t = core s"]) (auto simp: core_def split: bind_splits)

lemma inform_core: "inform s = Some s' \<Longrightarrow> core s' = core s"
  unfolding inform_def
  by (erule for_loop_inv[where P="\<lambda>t. core t = core s"]) (auto simp: core_def split: bind_splits)

lemma inform_random_core: "inform_random rs s = Some s' \<Longrightarrow> core s' = core s"
  unfolding inform_random_def
  by (fastforce split: bind_splits if_splits dest: inform_core init_comm_random_core)

lemma call_inform_fun_core: "call_inform_fun rs s = Some s' \<Longrightarrow> core s' = core s"
  unfolding call_inform_fun_def inform_ring_def
  by (auto split: inform_fun_t.splits dest: inform_global_core inform_core inform_random_core)

lemma update_coord_core: "update_coord rs i d s = Some s' \<Longrightarrow> core s' = core s"
  by (auto simp: update_coord_def move_coord_def clamp_coord_def periodic_coord_def
      RNG_UNIFORM_def core_def Let_def split: bind_splits if_splits)

lemma update_coords_core:
  "for_loop n (update_coord rs i) s = Some s' \<Longrightarrow> core s' = core s"
  by (erule for_loop_inv[where P="\<lambda>t. core t = core s"]) (auto dest: update_coord_core)

lemma init_coords_core:
  "for_loop n (init_coord rs i) s = Some s' \<Longrightarrow> core s' = core s"
  by (erule for_loop_inv[where P="\<lambda>t. core t = core s"]) (auto dest: init_coord_core)

lemma select_inform_fun_core: "select_inform_fun rs s = Some s' \<Longrightarrow> core s' = core s"
  unfolding select_inform_fun_def
  by (auto simp: core_def split: if_splits bind_splits
      dest!: init_comm_ring_core init_comm_random_core)

lemma select_inertia_fun_core [simp]: "core (select_inertia_fun s) = core s"
  by (simp add: select_inertia_fun_def core_def)

lemma core_fields:
  assumes "core s' = core s"
  shows "settings s' = settings s" "solution s' = solution s" "err_log s' = err_log s"
    "evals s' = evals s" "fit s' = fit s" "fit_b s' = fit_b s" "improved s' = improved s"
    "step_log s' = step_log s"
  using assms by (simp_all add: core_def)

section \<open>The swarm size of the factory\<close>

lemma sqrt2_bounds: "5 / 4 < sqrt 2" "sqrt 2 < 3 / 2"
proof -
  have "(5 / 4)\<^sup>2 < (2::real)" by (simp add: power2_eq_square)
  then show "5 / 4 < sqrt 2" by (rule real_less_rsqrt)
  have "(2::real) < (3 / 2)\<^sup>2" by (simp add: power2_eq_square)
  then show "sqrt 2 < 3 / 2" by (intro real_less_lsqrt) simp_all
qed

lemma swarm_size_of_floor:
  assumes "0 \<le> x" and "10 + 2 * x \<le> 100000"
  shows "int_of_dbl (dadd (Fin 10) (dmul (Fin 2) (Fin x))) = Some \<lfloor>10 + 2 * x\<rfloor>"
proof -
  have b: "\<not> 2 * x > DBL_MAX_r" "\<not> 2 * x < - DBL_MAX_r" "\<not> 10 + 2 * x > DBL_MAX_r"
    "\<not> 10 + 2 * x < - DBL_MAX_r"
    using assms by (simp_all add: DBL_MAX_r_def)
  have "\<lfloor>10 + 2 * x\<rfloor> \<le> 100000" using assms(2) by (simp add: floor_le_iff)
  moreover have "0 \<le> \<lfloor>10 + 2 * x\<rfloor>" using assms(1) by simp
  ultimately show ?thesis using b assms(1)
    by (simp add: rnd_def c_trunc_def INT_MIN_def INT_MAX_def)
qed

text \<open>
  C8, as the specification states it, with rounding to the nearest integer: for two
  dimensions \<open>10 + 2 * sqrt 2\<close> is about 12.83, the conversion to \<^verbatim>\<open>int\<close> gives 12
  and rounding would give 13.
\<close>

theorem swarm_size_round_counterexample:
  "pso_calc_swarm_size 2 \<noteq> Some (min 100 (round (10 + 2 * sqrt 2)))"
proof -
  have "\<lfloor>10 + 2 * sqrt 2\<rfloor> = 12" using sqrt2_bounds by linarith
  then have "pso_calc_swarm_size 2 = Some 12"
    using swarm_size_of_floor[of "sqrt 2"] sqrt2_bounds
    by (simp add: pso_calc_swarm_size_def dbl_of_int_def PSO_MAX_SIZE_def)
  moreover have "round (10 + 2 * sqrt 2) = 13"
    unfolding round_def using sqrt2_bounds by linarith
  ultimately show ?thesis by simp
qed

text \<open>
  C8, amended: for every \<open>dim > 0\<close> that an \<^verbatim>\<open>int\<close> holds, the swarm size that
  \<^verbatim>\<open>pso_calc_swarm_size\<close> computes, and that \<^verbatim>\<open>pso_settings_new\<close> stores, is
  \<open>min 100 \<lfloor>10 + 2 * sqrt dim\<rfloor>\<close>: the conversion to \<^verbatim>\<open>int\<close> truncates, it does not
  round to the nearest integer.
\<close>

theorem swarm_size_floor:
  assumes "0 < d" and "d \<le> INT_MAX"
  shows "pso_calc_swarm_size d = Some (min 100 \<lfloor>10 + 2 * sqrt (of_int d)\<rfloor>) \<and>
         map_option size_s (pso_settings_new step0 d lo hi) =
           Some (min 100 \<lfloor>10 + 2 * sqrt (of_int d)\<rfloor>)"
proof -
  define k where "k = \<lfloor>10 + 2 * sqrt (real_of_int d)\<rfloor>"
  have "real_of_int d \<le> 46341\<^sup>2" using assms(2) by (simp add: INT_MAX_def)
  then have u: "sqrt (of_int d) \<le> 46341" by (intro real_le_lsqrt) simp_all
  have l: "0 \<le> sqrt (real_of_int d)" using assms(1) by simp
  have r: "dsqrt (dbl_of_int d) = Fin (sqrt (of_int d))"
    using assms(1) by (simp add: dbl_of_int_def)
  have "int_of_dbl (dadd (Fin 10) (dmul (Fin 2) (dsqrt (dbl_of_int d)))) = Some k"
    unfolding r k_def using l u by (intro swarm_size_of_floor) simp_all
  then have c: "pso_calc_swarm_size d = Some (min 100 k)"
    unfolding pso_calc_swarm_size_def by (simp add: PSO_MAX_SIZE_def min_def)
  then have "map_option size_s (pso_settings_new step0 d lo hi) = Some (min 100 k)"
    using assms(1) by (simp add: pso_settings_new_def)
  with c show ?thesis unfolding k_def by simp
qed

text \<open>C8 at two dimensions, where the swarm has 12 particles.\<close>

theorem swarm_size_floor_witness:
  "(0::int) < 2 \<and> 2 \<le> INT_MAX \<and> pso_calc_swarm_size 2 = Some 12 \<and>
   map_option size_s (pso_settings_new 0 2 (Fin (- 10)) (Fin 10)) = Some 12"
proof -
  have h: "(0::int) < 2" "2 \<le> INT_MAX" by (simp_all add: INT_MAX_def)
  have "\<lfloor>10 + 2 * sqrt 2\<rfloor> = 12" using sqrt2_bounds by linarith
  with swarm_size_floor[OF h, of 0 "Fin (- 10)" "Fin 10"] h show ?thesis by simp
qed

section \<open>The linearly decreasing inertia\<close>

lemma factory_settings_1: "pso_settings_new 0 1 (Fin (- 10)) (Fin 10) = Some factory_settings_1"
  using swarm_size_of_floor[of 1]
  by (simp add: pso_settings_new_def pso_calc_swarm_size_def dbl_of_int_def PSO_MAX_SIZE_def
      factory_settings_1_def)

text \<open>
  C3 asks that the schedule returns \<open>wMin\<close> where \<open>decayStage\<close> is 0. With the settings
  of the factory and \<^verbatim>\<open>steps = 1\<close>, \<open>decayStage\<close> is \<open>3 * 1 / 4 = 0\<close>; at step 0 the
  test \<^verbatim>\<open>step <= dec_stage\<close> holds and the source divides \<open>(w_max - w_min) * 0\<close> by
  zero: the inertia is NaN, not \<open>wMin = 0.3\<close>.
\<close>

theorem inertia_lin_dec_one_step_nan:
  "calc_inertia_lin_dec 0 (factory_settings_1\<lparr>steps := 1\<rparr>) = NaN"
  by (simp add: calc_inertia_lin_dec_def factory_settings_1_def c_div_def dbl_of_int_def dsub_def
      PSO_INERTIA_def rnd_def DBL_MAX_r_def)

lemma solver_new_simps [simp]:
  "settings (solver_new sol st) = st" "solution (solver_new sol st) = sol"
  "err_log (solver_new sol st) = []" "evals (solver_new sol st) = []"
  "step_log (solver_new sol st) = []" "improved (solver_new sol st) = 0"
  "comm_inits (solver_new sol st) = 0"
  by (simp_all add: solver_new_def)

section \<open>Runs without undefined behaviour\<close>

text \<open>
  On the inputs of \<open>buffers_ok\<close> every part of the solver has a result, and so has
  \<open>pso_solve\<close>: the main loop ends and no access leaves a buffer.
\<close>

lemma for_loop_total:
  assumes "I s"
    and "\<And>i t. i < nat n \<Longrightarrow> I t \<Longrightarrow> \<exists>t'. body i t = Some t' \<and> I t'"
  shows "\<exists>s'. for_loop n body s = Some s' \<and> I s'"
proof -
  have "m \<le> nat n \<Longrightarrow> \<exists>t. for_each body [0..<m] s = Some t \<and> I t" for m
  proof (induction m)
    case 0
    then show ?case using assms(1) by simp
  next
    case (Suc m)
    then obtain u where u: "for_each body [0..<m] s = Some u" "I u" by auto
    from assms(2)[of m u] Suc.prems u(2) obtain t where "body m u = Some t" "I t" by auto
    with u(1) show ?case unfolding for_each_upt_Suc by simp
  qed
  from this[of "nat n"] show ?thesis by (simp add: for_loop_def)
qed

lemma safe_core: "core s' = core s \<Longrightarrow> safe s' = safe s"
  by (simp add: safe_def core_def)

lemma rd_Some: "0 \<le> k \<Longrightarrow> k < int (length xs) \<Longrightarrow> \<exists>v. rd xs k = Some v"
  by (simp add: rd_def)

lemma wr_Some: "0 \<le> k \<Longrightarrow> k < int (length xs) \<Longrightarrow> wr xs k v = Some (xs[nat k := v])"
  by (simp add: wr_def)

lemma init_coord_total:
  assumes "safe s" and "d < nat (dim (settings s))"
  shows "\<exists>s'. init_coord rs i d s = Some s' \<and> core s' = core s"
proof -
  from assms have "rd (range_lo (settings s)) (int d) = Some (range_lo (settings s) ! d)"
    "rd (range_hi (settings s)) (int d) = Some (range_hi (settings s) ! d)"
    by (auto simp: safe_def rd_def)
  then have "\<exists>s'. init_coord rs i d s = Some s'"
    by (simp add: init_coord_def Let_def split: prod.splits)
  then show ?thesis using init_coord_core by blast
qed

lemma init_coords_total:
  assumes "safe s"
  shows "\<exists>s'. for_loop (dim (settings s)) (init_coord rs i) s = Some s' \<and> core s' = core s"
proof (rule for_loop_total[where I="\<lambda>t. core t = core s"])
  fix d t assume d: "d < nat (dim (settings s))" and c: "core t = core s"
  then have "safe t" "settings t = settings s" using assms safe_core[OF c] by (simp_all add: core_def)
  with init_coord_total[of t d rs i] d c show "\<exists>t'. init_coord rs i d t = Some t' \<and> core t' = core s"
    by auto
qed simp

lemma set_gbest_total:
  assumes "safe s"
  shows "\<exists>s'. set_gbest i s = Some s' \<and> safe s' \<and> settings s' = settings s"
  using assms by (auto simp: set_gbest_def safe_def memmove_to_buf_def row_def Let_def)

lemma init_fit_safe [simp]: "safe (init_fit f i s) = safe s" "settings (init_fit f i s) = settings s"
  by (simp_all add: safe_def init_fit_def eval_fit_def Let_def)

lemma init_particle_total:
  assumes "safe s"
  shows "\<exists>s'. init_particle f rs i s = Some s' \<and> safe s' \<and> settings s' = settings s"
proof -
  from init_coords_total[OF assms, of rs i] obtain s1 where
    a: "for_loop (dim (settings s)) (init_coord rs i) s = Some s1" and c: "core s1 = core s" by auto
  have s1: "safe s1" "settings s1 = settings s" using safe_core[OF c] assms c by (simp_all add: core_def)
  then have "\<exists>s'. init_gbest i (init_fit f i s1) = Some s' \<and> safe s' \<and> settings s' = settings s"
    using set_gbest_total[of "init_fit f i s1" i] by (auto simp: init_gbest_def)
  with a show ?thesis by (simp add: init_particle_def)
qed

lemma init_swarm_total:
  assumes "safe s"
  shows "\<exists>s'. init_swarm f rs s = Some s' \<and> safe s' \<and> settings s' = settings s"
  unfolding init_swarm_def
proof (rule for_loop_total[where I="\<lambda>t. safe t \<and> settings t = settings s"])
  show "safe (s\<lparr>solution := (solution s)\<lparr>error := DBL_MAX\<rparr>, err_log := err_log s @ [DBL_MAX]\<rparr>) \<and>
        settings (s\<lparr>solution := (solution s)\<lparr>error := DBL_MAX\<rparr>, err_log := err_log s @ [DBL_MAX]\<rparr>) = settings s"
    using assms by (simp add: safe_def)
next
  fix i t assume "safe t \<and> settings t = settings s"
  then show "\<exists>t'. init_particle f rs i t = Some t' \<and> safe t' \<and> settings t' = settings s"
    using init_particle_total[of t f rs i] by auto
qed

lemma idx_bound:
  fixes i j n :: int
  assumes "0 \<le> i" "i < n" "0 \<le> j" "j < n"
  shows "0 \<le> i * n + j \<and> i * n + j < n * n"
proof -
  have "i * n \<le> (n - 1) * n" using assms by (intro mult_right_mono) simp_all
  then have "i * n + j < n * n" using assms by (simp add: algebra_simps)
  moreover have "0 \<le> i * n" using assms by simp
  ultimately show ?thesis using assms by simp
qed

lemma wr_idx:
  fixes i j n :: int
  assumes "0 \<le> i" "i < n" "0 \<le> j" "j < n" "length c = nat (n * n)"
  shows "\<exists>c'. wr c (i * n + j) v = Some c' \<and> length c' = nat (n * n)"
  using idx_bound[OF assms(1-4)] assms(5) by (simp add: wr_def)

lemma init_comm_ring_total:
  assumes "size_s (settings s) \<noteq> 1"
  shows "\<exists>s'. init_comm_ring s = Some s' \<and> core s' = core s"
proof -
  define n where "n = size_s (settings s)"
  have "\<exists>s'. for_loop n
        (\<lambda>k s. do {
           let i = int k;
           c \<leftarrow> wr (comm s) (i * n + i) 1;
           c \<leftarrow> (if i = 0 then do {
                    c \<leftarrow> wr c (i * n + i + 1) 1;
                    wr c ((i + 1) * n - 1) 1 }
                  else if i = n - 1 then do {
                    c \<leftarrow> wr c (i * n) 1;
                    wr c (i * n + i - 1) 1 }
                  else do {
                    c \<leftarrow> wr c (i * n + i + 1) 1;
                    wr c (i * n + i - 1) 1 });
           Some (s\<lparr>comm := c\<rparr>) })
        (s\<lparr>comm := replicate (nat (n * n)) 0\<rparr>) = Some s' \<and> length (comm s') = nat (n * n)"
  proof (rule for_loop_total[where I="\<lambda>t. length (comm t) = nat (n * n)"])
    show "length (comm (s\<lparr>comm := replicate (nat (n * n)) 0\<rparr>)) = nat (n * n)" by simp
  next
    fix k and t :: solver
    assume k: "k < nat n" and len: "length (comm t) = nat (n * n)"
    define i where "i = int k"
    have i: "0 \<le> i" "i < n" using k by (simp_all add: i_def)
    have n2: "2 \<le> n" using assms i by (simp add: n_def)
    from wr_idx[OF i i len] obtain c1 where c1: "wr (comm t) (i * n + i) 1 = Some c1"
      and l1: "length c1 = nat (n * n)" by blast
    have "\<exists>c3. (if i = 0 then do {
                    c \<leftarrow> wr c1 (i * n + i + 1) 1;
                    wr c ((i + 1) * n - 1) 1 }
                  else if i = n - 1 then do {
                    c \<leftarrow> wr c1 (i * n) 1;
                    wr c (i * n + i - 1) 1 }
                  else do {
                    c \<leftarrow> wr c1 (i * n + i + 1) 1;
                    wr c (i * n + i - 1) 1 }) = Some c3 \<and> length c3 = nat (n * n)"
    proof -
      consider "i = 0" | "i \<noteq> 0" "i = n - 1" | "i \<noteq> 0" "i \<noteq> n - 1" by blast
      then show ?thesis
      proof cases
        case 1
        from wr_idx[of 0 n 1 c1] n2 l1 obtain c2 where
          a: "wr c1 1 1 = Some c2" "length c2 = nat (n * n)" by auto
        from wr_idx[of 0 n "n - 1" c2] n2 a(2) obtain c3 where
          "wr c2 (n - 1) 1 = Some c3" "length c3 = nat (n * n)" by auto
        with 1 a show ?thesis by simp
      next
        case 2
        from wr_idx[of i n 0 c1] i n2 l1 obtain c2 where
          a: "wr c1 (i * n) 1 = Some c2" "length c2 = nat (n * n)" by auto
        from wr_idx[of i n "i - 1" c2] i n2 2 a(2) obtain c3 where
          "wr c2 (i * n + i - 1) 1 = Some c3" "length c3 = nat (n * n)" by (auto simp: algebra_simps)
        with 2 a show ?thesis by simp
      next
        case 3
        from wr_idx[of i n "i + 1" c1] i 3 l1 obtain c2 where
          a: "wr c1 (i * n + i + 1) 1 = Some c2" "length c2 = nat (n * n)" by (auto simp: algebra_simps)
        from wr_idx[of i n "i - 1" c2] i 3 a(2) obtain c3 where
          "wr c2 (i * n + i - 1) 1 = Some c3" "length c3 = nat (n * n)" by (auto simp: algebra_simps)
        with 3 a show ?thesis by simp
      qed
    qed
    then obtain c3 where c3: "(if i = 0 then do {
                    c \<leftarrow> wr c1 (i * n + i + 1) 1;
                    wr c ((i + 1) * n - 1) 1 }
                  else if i = n - 1 then do {
                    c \<leftarrow> wr c1 (i * n) 1;
                    wr c (i * n + i - 1) 1 }
                  else do {
                    c \<leftarrow> wr c1 (i * n + i + 1) 1;
                    wr c (i * n + i - 1) 1 }) = Some c3" and l3: "length c3 = nat (n * n)" by blast
    show "\<exists>t'. do {
           let i = int k;
           c \<leftarrow> wr (comm t) (i * n + i) 1;
           c \<leftarrow> (if i = 0 then do {
                    c \<leftarrow> wr c (i * n + i + 1) 1;
                    wr c ((i + 1) * n - 1) 1 }
                  else if i = n - 1 then do {
                    c \<leftarrow> wr c (i * n) 1;
                    wr c (i * n + i - 1) 1 }
                  else do {
                    c \<leftarrow> wr c (i * n + i + 1) 1;
                    wr c (i * n + i - 1) 1 });
           Some (t\<lparr>comm := c\<rparr>) } = Some t' \<and> length (comm t') = nat (n * n)"
      unfolding Let_def i_def[symmetric] c1 using c3 l3 by simp
  qed
  then have "\<exists>s'. init_comm_ring s = Some s'"
    unfolding init_comm_ring_def Let_def n_def by blast
  then show ?thesis using init_comm_ring_core by blast
qed
lemma init_comm_random_total: "\<exists>s'. init_comm_random rs s = Some s' \<and> core s' = core s"
proof -
  define n where "n = size_s (settings s)"
  define inner where "inner = (\<lambda>i (_::nat) (s::solver). do {
                let (j, s) = RNG_UNIFORM_INT rs n s;
                c \<leftarrow> wr (comm s) (i * n + j) 1;
                Some (s\<lparr>comm := c\<rparr>) })"
  define I where "I = (\<lambda>t::solver. length (comm t) = nat (n * n) \<and> settings t = settings s)"
  have inner_total: "\<exists>t'. for_loop m (inner i) t = Some t' \<and> I t'"
    if "I t" "0 \<le> i" "i < n" for m i t
  proof (rule for_loop_total[where I=I])
    fix k u assume "I u"
    then show "\<exists>t'. inner i k u = Some t' \<and> I t'"
      using wr_idx[of i n "int (rs (rng u)) mod n" "comm u" 1] that(2,3)
      by (auto simp: inner_def RNG_UNIFORM_INT_def I_def)
  qed (rule that(1))
  have "\<exists>s'. for_loop n
        (\<lambda>k s. do {
           let i = int k;
           c \<leftarrow> wr (comm s) (i * n + i) 1;
           for_loop (nhood_size (settings s)) (inner i) (s\<lparr>comm := c\<rparr>) })
        (s\<lparr>comm := replicate (nat (n * n)) 0, comm_inits := Suc (comm_inits s)\<rparr>) = Some s' \<and> I s'"
  proof (rule for_loop_total[where I=I])
    show "I (s\<lparr>comm := replicate (nat (n * n)) 0, comm_inits := Suc (comm_inits s)\<rparr>)"
      by (simp add: I_def)
  next
    fix k t assume k: "k < nat n" and t: "I t"
    have i: "0 \<le> int k" "int k < n" using k by simp_all
    from wr_idx[OF i i, of "comm t" 1] t obtain c where c: "wr (comm t) (int k * n + int k) 1 = Some c"
      and l: "length c = nat (n * n)" by (auto simp: I_def)
    have "I (t\<lparr>comm := c\<rparr>)" using t l by (simp add: I_def)
    from inner_total[OF this i] c
    show "\<exists>t'. do {
           let i = int k;
           c \<leftarrow> wr (comm t) (i * n + i) 1;
           for_loop (nhood_size (settings t)) (inner i) (t\<lparr>comm := c\<rparr>) } = Some t' \<and> I t'"
      by (simp add: Let_def)
  qed
  then have "\<exists>s'. init_comm_random rs s = Some s'"
    unfolding init_comm_random_def Let_def inner_def n_def by blast
  then show ?thesis using init_comm_random_core by blast
qed

lemma inform_global_total:
  assumes "safe s" shows "\<exists>s'. inform_global s = Some s' \<and> core s' = core s"
proof -
  have "\<exists>s'. inform_global s = Some s' \<and> core s' = core s \<and> True"
    unfolding inform_global_def
    by (rule for_loop_total[where I="\<lambda>t. core t = core s \<and> True"])
       (use assms in \<open>auto simp: memmove_from_buf_def safe_def core_def\<close>)
  then show ?thesis by simp
qed

lemma inform_total:
  assumes "safe s" shows "\<exists>s'. inform s = Some s' \<and> core s' = core s"
proof -
  have "\<exists>s'. inform s = Some s' \<and> core s' = core s \<and> True"
    unfolding inform_def
    by (rule for_loop_total[where I="\<lambda>t. core t = core s \<and> True"])
       (use assms in \<open>auto simp: memmove_rows_def safe_def core_def\<close>)
  then show ?thesis by simp
qed

lemma call_inform_fun_total:
  assumes "safe s" shows "\<exists>s'. call_inform_fun rs s = Some s' \<and> core s' = core s"
proof (cases "inform_fun s")
  case Inform_global
  then show ?thesis using inform_global_total[OF assms] by (simp add: call_inform_fun_def)
next
  case Inform_ring
  then show ?thesis using inform_total[OF assms] by (simp add: call_inform_fun_def inform_ring_def)
next
  case Inform_random
  obtain s1 where a: "(if improved s = 0 then init_comm_random rs s else Some s) = Some s1"
    and c: "core s1 = core s"
    using init_comm_random_total[of rs s] by (cases "improved s = 0") auto
  have "safe s1" using safe_core[OF c] assms by simp
  from inform_total[OF this] obtain s2 where "inform s1 = Some s2" "core s2 = core s1" by auto
  with a c Inform_random show ?thesis by (simp add: call_inform_fun_def inform_random_def)
qed

lemma update_coord_total:
  assumes "safe s" and "d < nat (dim (settings s))"
  shows "\<exists>s'. update_coord rs i d s = Some s' \<and> core s' = core s"
proof -
  define t where "t = move_coord rs i d s"
  have st: "settings t = settings s" by (simp add: t_def)
  with assms have "rd (range_lo (settings t)) (int d) = Some (range_lo (settings s) ! d)"
    "rd (range_hi (settings t)) (int d) = Some (range_hi (settings s) ! d)"
    by (auto simp: safe_def rd_def)
  then have "\<exists>s'. clamp_coord i d t = Some s'" "\<exists>s'. periodic_coord i d t = Some s'"
    by (simp_all add: clamp_coord_def periodic_coord_def)
  then have "\<exists>s'. update_coord rs i d s = Some s'"
    by (simp add: update_coord_def Let_def t_def)
  then show ?thesis using update_coord_core by blast
qed

lemma update_coords_total:
  assumes "safe s"
  shows "\<exists>s'. for_loop (dim (settings s)) (update_coord rs i) s = Some s' \<and> core s' = core s"
proof (rule for_loop_total[where I="\<lambda>t. core t = core s"])
  fix d t assume d: "d < nat (dim (settings s))" and c: "core t = core s"
  then have "safe t" "settings t = settings s" using assms safe_core[OF c] by (simp_all add: core_def)
  with update_coord_total[of t d rs i] d c show "\<exists>t'. update_coord rs i d t = Some t' \<and> core t' = core s"
    by auto
qed simp

lemma update_pbest_total:
  assumes "safe s"
  shows "\<exists>s'. update_pbest i s = Some s' \<and> safe s' \<and> settings s' = settings s"
  using assms by (auto simp: update_pbest_def memmove_rows_def safe_def)

lemma update_gbest_total:
  assumes "safe s"
  shows "\<exists>s'. update_gbest i s = Some s' \<and> safe s' \<and> settings s' = settings s"
proof -
  have "safe (s\<lparr>improved := 1\<rparr>)" using assms by (simp add: safe_def)
  from set_gbest_total[OF this, of i] assms show ?thesis by (auto simp: update_gbest_def)
qed

lemma update_particle_total:
  assumes "safe s"
  shows "\<exists>s'. update_particle f rs i s = Some s' \<and> safe s' \<and> settings s' = settings s"
proof -
  from update_coords_total[OF assms, of rs i] obtain s1 where
    a: "for_loop (dim (settings s)) (update_coord rs i) s = Some s1" and c: "core s1 = core s" by auto
  have "safe (eval_fit f i s1)" "settings (eval_fit f i s1) = settings s"
    using safe_core[OF c] assms c by (simp_all add: core_def safe_def eval_fit_def Let_def)
  with update_pbest_total[of "eval_fit f i s1" i] obtain s2 where
    b: "update_pbest i (eval_fit f i s1) = Some s2" "safe s2" "settings s2 = settings s" by auto
  from update_gbest_total[OF b(2), of i] b(3) obtain s3 where
    "update_gbest i s2 = Some s3" "safe s3" "settings s3 = settings s" by auto
  with a b(1) show ?thesis by (simp add: update_particle_def Let_def)
qed

lemma step_body_total:
  assumes "safe s"
  shows "\<exists>s'. step_body f rs s = Some s' \<and> safe s' \<and> settings s' = settings s"
proof -
  from call_inform_fun_total[OF assms, of rs] obtain s1 where
    a: "call_inform_fun rs s = Some s1" and c: "core s1 = core s" by auto
  have s1: "safe (s1\<lparr>improved := 0\<rparr>) \<and> settings (s1\<lparr>improved := 0\<rparr>) = settings s"
    using safe_core[OF c] assms c by (simp add: safe_def core_def)
  have "\<exists>s2. for_loop (size_s (settings s1)) (update_particle f rs) (s1\<lparr>improved := 0\<rparr>) = Some s2 \<and>
      (safe s2 \<and> settings s2 = settings s)"
  proof (rule for_loop_total[where I="\<lambda>t. safe t \<and> settings t = settings s"])
    fix i t assume "safe t \<and> settings t = settings s"
    then show "\<exists>t'. update_particle f rs i t = Some t' \<and> safe t' \<and> settings t' = settings s"
      using update_particle_total[of t f rs i] by auto
  qed (rule s1)
  then obtain s2 where b: "for_loop (size_s (settings s1)) (update_particle f rs) (s1\<lparr>improved := 0\<rparr>) = Some s2"
    and s2: "safe s2" "settings s2 = settings s" by auto
  have "safe (log_step s s1 s2)" "settings (log_step s s1 s2) = settings s"
    using s2 by (simp_all add: log_step_def safe_def)
  with a b show ?thesis by (simp add: step_body_def)
qed

lemma step_head_safe [simp]: "safe (step_head k s) = safe s"
  by (simp add: safe_def step_head_def Let_def split: option.splits inertia_fun_t.splits)

lemma step_loop_total:
  assumes "safe s" shows "\<exists>r. step_loop f rs stp s = Some r"
  using assms
proof (induction f rs stp s rule: step_loop.induct)
  case (1 f rs stp s)
  show ?case
  proof (cases "stp < steps (settings s) \<and>
      \<not> dle (error (solution (step_head stp s))) (goal (settings (step_head stp s)))")
    case False
    then show ?thesis by (auto simp: step_loop.simps[of f rs stp s] Let_def)
  next
    case True
    from step_body_total[of "step_head stp s" f rs] "1.prems" obtain t where
      b: "step_body f rs (step_head stp s) = Some t" and t: "safe t" by auto
    from "1.IH"[OF _ refl _ b t] True obtain r where "step_loop f rs (stp + 1) t = Some r" by auto
    with True b show ?thesis by (simp add: step_loop.simps[of f rs stp s] Let_def)
  qed
qed

lemma pso_init_total:
  assumes "buffers_ok st sol"
  shows "\<exists>s. pso_init f rs sol st = Some s \<and> safe s"
proof -
  have sn: "safe (solver_new sol st)" using assms by (simp add: safe_def buffers_ok_def)
  have "\<exists>s1. select_inform_fun rs (solver_new sol st) = Some s1"
    using init_comm_ring_total[of "solver_new sol st"] init_comm_random_total[of rs "solver_new sol st"]
      assms
    by (auto simp: select_inform_fun_def buffers_ok_def)
  then obtain s1 where a: "select_inform_fun rs (solver_new sol st) = Some s1" by blast
  have "safe (select_inertia_fun s1)"
    using safe_core[of "select_inertia_fun s1" "solver_new sol st"] select_inform_fun_core[OF a] sn
    by simp
  from init_swarm_total[OF this, of f rs] a show ?thesis by (auto simp: pso_init_def)
qed

lemma pso_solve_total:
  assumes "buffers_ok st sol"
  shows "\<exists>r. pso_solve f rs sol st = Some r"
proof -
  from pso_init_total[OF assms, of f rs] obtain s where "pso_init f rs sol st = Some s" "safe s"
    by auto
  with step_loop_total[of s f rs 0] show ?thesis by (auto simp: pso_solve_def)
qed

lemma buffers_ok_demo: "buffers_ok factory_settings_1 result_demo"
  by (simp add: buffers_ok_def factory_settings_1_def result_demo_def)

section \<open>The best error over a run\<close>

lemma dlt_trans: "dlt a b \<Longrightarrow> dlt b c \<Longrightarrow> dlt a c"
  by (cases a; cases b; cases c) auto

lemma dlt_irrefl [simp]: "\<not> dlt a a"
  by (cases a) auto

lemma dlt_imp_dle: "dlt a b \<Longrightarrow> dle a b"
  by (cases a; cases b) auto

lemma dle_dlt_trans: "dle a b \<Longrightarrow> dlt b c \<Longrightarrow> dlt a c"
  by (cases a; cases b; cases c) auto

text \<open>The rule of the main loop: an invariant \<open>P\<close> of the steps, and what holds at its two exits.\<close>

lemma step_loop_rule:
  assumes "step_loop f rs stp s = Some r" and "P stp s"
    and "\<And>k t t'. k < steps (settings t) \<Longrightarrow> P k t \<Longrightarrow>
           \<not> dle (error (solution (step_head k t))) (goal (settings t)) \<Longrightarrow>
           step_body f rs (step_head k t) = Some t' \<Longrightarrow> P (k + 1) t'"
    and "\<And>k t. k < steps (settings t) \<Longrightarrow> P k t \<Longrightarrow>
           dle (error (solution (step_head k t))) (goal (settings t)) \<Longrightarrow>
           Q (step_head k t)"
    and "\<And>k t. \<not> k < steps (settings t) \<Longrightarrow> P k t \<Longrightarrow> Q t"
  shows "Q r"
  using assms
proof (induction f rs stp s rule: step_loop.induct)
  case (1 f rs stp s)
  note run = "1.prems"(1) and p = "1.prems"(2) and body = "1.prems"(3)
    and brk = "1.prems"(4) and ex = "1.prems"(5)
  show ?case
  proof (cases "stp < steps (settings s)")
    case False
    with run have "r = s" by (simp add: step_loop.simps[of f rs stp s])
    with ex[OF False p] show ?thesis by simp
  next
    case True
    show ?thesis
    proof (cases "dle (error (solution (step_head stp s))) (goal (settings s))")
      case goal_reached: True
      with True run have "r = step_head stp s"
        by (simp add: step_loop.simps[of f rs stp s] Let_def)
      with brk[OF True p goal_reached] show ?thesis by simp
    next
      case False
      then have nd: "\<not> dle (error (solution (step_head stp s))) (goal (settings (step_head stp s)))"
        by simp
      with True run obtain t' where b: "step_body f rs (step_head stp s) = Some t'"
        and l: "step_loop f rs (stp + 1) t' = Some r"
        by (auto simp: step_loop.simps[of f rs stp s] Let_def split: option.splits)
      have "P (stp + 1) t'" by (rule body[OF True p False b])
      from "1.IH"[OF True refl nd b l this body brk ex] show ?thesis .
    qed
  qed
qed

lemma log_ok_cong: "solution s' = solution s \<Longrightarrow> err_log s' = err_log s \<Longrightarrow> log_ok s' = log_ok s"
  by (simp add: log_ok_def)

lemma log_ok_core: "core s' = core s \<Longrightarrow> log_ok s' = log_ok s"
  by (simp add: log_ok_def core_def)

lemma sorted_wrt_last:
  assumes "sorted_wrt P xs" and "x \<in> set xs"
  shows "x = last xs \<or> P x (last xs)"
proof -
  from assms(2) have ne: "xs \<noteq> []" by auto
  then have eq: "xs = butlast xs @ [last xs]" by simp
  with assms(1) have "\<forall>y\<in>set (butlast xs). P y (last xs)"
    by (metis sorted_wrt_append list.set_intros(1))
  moreover from assms(2) eq have "x \<in> set (butlast xs) \<or> x = last xs"
    by (metis Un_iff empty_iff empty_set set_ConsD set_append)
  ultimately show ?thesis by blast
qed

lemma set_gbest_log_ok:
  assumes "set_gbest i s = Some s'" and "log_ok s" and "dlt (fit s i) (error (solution s))"
  shows "log_ok s'"
proof -
  from assms(1) have e: "err_log s' = err_log s @ [fit s i]" "error (solution s') = fit s i"
    by (auto simp: set_gbest_def Let_def split: bind_splits)
  have "dlt (fit s i) x" if "x \<in> set (err_log s)" for x
    using sorted_wrt_last[of "\<lambda>a b. dlt b a" "err_log s" x] that assms(2,3)
    by (auto simp: log_ok_def intro: dlt_trans)
  with assms(2) e show ?thesis
    by (auto simp: log_ok_def sorted_wrt_append)
qed

lemma init_particle_log_ok:
  assumes "init_particle f rs i s = Some s'" and "log_ok s"
  shows "log_ok s'"
proof -
  from assms(1) obtain s1 where a: "for_loop (dim (settings s)) (init_coord rs i) s = Some s1"
    and b: "init_gbest i (init_fit f i s1) = Some s'"
    by (auto simp: init_particle_def split: bind_splits)
  have "log_ok s1" using log_ok_core[OF init_coords_core[OF a]] assms(2) by simp
  then have "log_ok (init_fit f i s1)" by (simp add: log_ok_def init_fit_def eval_fit_def Let_def)
  with b show ?thesis
    by (cases "dlt (fit (init_fit f i s1) i) (error (solution (init_fit f i s1)))")
       (auto simp: init_gbest_def dest: set_gbest_log_ok)
qed

lemma init_swarm_log_ok:
  assumes "init_swarm f rs s = Some s'" and "err_log s = []"
  shows "log_ok s'"
  using assms(1) unfolding init_swarm_def
proof (rule for_loop_inv[where P=log_ok])
  show "log_ok (s\<lparr>solution := (solution s)\<lparr>error := DBL_MAX\<rparr>, err_log := err_log s @ [DBL_MAX]\<rparr>)"
    by (simp add: log_ok_def assms(2))
qed (rule init_particle_log_ok)

lemma update_pbest_log: "update_pbest i s = Some s' \<Longrightarrow> solution s' = solution s \<and> err_log s' = err_log s"
  by (auto simp: update_pbest_def split: bind_splits if_splits)

lemma update_particle_log_ok:
  assumes "update_particle f rs i s = Some s'" and "log_ok s"
  shows "log_ok s'"
proof -
  from assms(1) obtain s1 s2 where
    a: "for_loop (dim (settings s)) (update_coord rs i) s = Some s1" and
    b: "update_pbest i (eval_fit f i s1) = Some s2" and
    c: "update_gbest i s2 = Some s'"
    by (auto simp: update_particle_def Let_def split: bind_splits)
  have "log_ok s1" using log_ok_core[OF update_coords_core[OF a]] assms(2) by simp
  then have "log_ok (eval_fit f i s1)" by (simp add: log_ok_def eval_fit_def Let_def)
  then have l2: "log_ok s2" using update_pbest_log[OF b] by (simp add: log_ok_def)
  show ?thesis
  proof (cases "dlt (fit s2 i) (error (solution s2))")
    case True
    with c have g: "set_gbest i (s2\<lparr>improved := 1\<rparr>) = Some s'"
      by (simp add: update_gbest_def)
    from l2 have "log_ok (s2\<lparr>improved := 1\<rparr>)" by (simp add: log_ok_def)
    from set_gbest_log_ok[OF g this] True show ?thesis by simp
  next
    case False
    with c l2 show ?thesis by (simp add: update_gbest_def)
  qed
qed

lemma step_body_log_ok:
  assumes "step_body f rs s = Some s'" and "log_ok s"
  shows "log_ok s'"
proof -
  from assms(1) obtain s1 s2 where
    a: "call_inform_fun rs s = Some s1" and
    b: "for_loop (size_s (settings s1)) (update_particle f rs) (s1\<lparr>improved := 0\<rparr>) = Some s2" and
    c: "s' = log_step s s1 s2"
    by (auto simp: step_body_def split: bind_splits)
  have "log_ok s1" using log_ok_core[OF call_inform_fun_core[OF a]] assms(2) by simp
  then have "log_ok (s1\<lparr>improved := 0\<rparr>)" by (simp add: log_ok_def)
  then have "log_ok s2"
    by (rule for_loop_inv[OF b, where P=log_ok]) (rule update_particle_log_ok)
  with c show ?thesis by (simp add: log_ok_def log_step_def)
qed

lemma step_head_log_ok: "log_ok (step_head k s) = log_ok s"
  by (simp add: step_head_def log_ok_def Let_def split: option.splits inertia_fun_t.splits)

lemma step_loop_log_ok:
  assumes "step_loop f rs stp s = Some r" and "log_ok s"
  shows "log_ok r"
proof (rule step_loop_rule[OF assms(1), where P="\<lambda>k t. log_ok t" and Q=log_ok])
  show "log_ok s" by (rule assms(2))
next
  fix k t t'
  assume "log_ok t" "step_body f rs (step_head k t) = Some t'"
  then show "log_ok t'" using step_body_log_ok[of f rs "step_head k t" t']
    by (simp add: step_head_log_ok)
qed (simp_all add: step_head_log_ok)

lemma pso_init_log_ok:
  assumes "pso_init f rs sol st = Some s" shows "log_ok s"
proof -
  from assms obtain s1 where a: "select_inform_fun rs (solver_new sol st) = Some s1"
    and b: "init_swarm f rs (select_inertia_fun s1) = Some s"
    by (auto simp: pso_init_def split: bind_splits)
  have "core (select_inertia_fun s1) = core (solver_new sol st)"
    using select_inform_fun_core[OF a] by simp
  then have "err_log (select_inertia_fun s1) = []"
    by (simp add: core_def)
  with b show ?thesis by (rule init_swarm_log_ok)
qed

text \<open>
  C1: in every run of \<^verbatim>\<open>pso_solve\<close> that returns, the values that
  \<^verbatim>\<open>solution->error\<close> takes, from its initialisation on, are strictly decreasing, each
  assignment replacing it with a strictly smaller value; so the sequence is non-increasing.
  It starts with \<^verbatim>\<open>DBL_MAX\<close> and ends with the value that the caller reads.
\<close>

theorem best_error_decreasing:
  assumes "pso_solve f rs sol st = Some r"
  shows "hd (err_log r) = DBL_MAX \<and> last (err_log r) = error (solution r) \<and>
         sorted_wrt (\<lambda>a b. dlt b a) (err_log r) \<and> sorted_wrt (\<lambda>a b. dle b a) (err_log r)"
proof -
  from assms obtain s where a: "pso_init f rs sol st = Some s" and b: "step_loop f rs 0 s = Some r"
    by (auto simp: pso_solve_def split: bind_splits)
  have "log_ok r" using step_loop_log_ok[OF b pso_init_log_ok[OF a]] .
  moreover have "sorted_wrt (\<lambda>a b. dle b a) xs" if "sorted_wrt (\<lambda>a b. dlt b a) xs" for xs
    using that by (rule sorted_wrt_mono_rel[rotated]) (auto intro: dlt_imp_dle)
  ultimately show ?thesis by (simp add: log_ok_def)
qed

text \<open>C1 on the run above.\<close>

theorem best_error_decreasing_witness:
  "\<exists>r. pso_solve pso_sphere rand_demo result_demo factory_settings_1 = Some r \<and>
       hd (err_log r) = DBL_MAX \<and> last (err_log r) = error (solution r) \<and>
       sorted_wrt (\<lambda>a b. dlt b a) (err_log r) \<and> sorted_wrt (\<lambda>a b. dle b a) (err_log r)"
proof -
  from pso_solve_total[OF buffers_ok_demo] obtain r where
    r: "pso_solve pso_sphere rand_demo result_demo factory_settings_1 = Some r" by blast
  from best_error_decreasing[OF r] r show ?thesis by blast
qed

section \<open>Runs on small inputs\<close>

text \<open>
  The equations by which the simplifier runs the model on such inputs. A loop is unfolded
  one iteration at a time, and the rest of a sequence is not looked at before its first part
  has a value.
\<close>

lemmas model_defs = pso_solve_def pso_init_def select_inform_fun_def select_inertia_fun_def solver_new_def
  init_swarm_def init_particle_def init_fit_def init_gbest_def init_coord_def set_gbest_def eval_fit_def for_loop_def
  RNG_UNIFORM_def RNG_UNIFORM_INT_def rd_def wr_def row_def memmove_rows_def memmove_to_buf_def memmove_from_buf_def
  init_comm_random_def init_comm_ring_def inform_def inform_global_def inform_ring_def inform_random_def
  call_inform_fun_def best_informer_def step_body_def log_step_def step_head_def update_particle_def update_coord_def
  move_coord_def clamp_coord_def periodic_coord_def update_pbest_def update_gbest_def
  dbl_of_int_def RAND_MAX_def rnd_def DBL_MAX_r_def DBL_MAX_def dsub_def dgt_def
  PSO_NHOOD_GLOBAL_def PSO_NHOOD_RING_def PSO_NHOOD_RANDOM_def PSO_W_LIN_DEC_def PSO_W_CONST_def PSO_INERTIA_def

lemma bind_weak_cong: "m = m' \<Longrightarrow> Option.bind m f = Option.bind m' f"
  by simp

lemma for_each_upt:
  "for_each body [i..<j] s =
     (if i < j then Option.bind (body i s) (for_each body [Suc i..<j]) else Some s)"
  by (simp add: upt_rec[of i j] split: option.splits)

lemma step_loop_unfold:
  "step_loop f rs stp s =
     (if stp < steps (settings s)
      then let s1 = step_head stp s
           in if dle (error (solution s1)) (goal (settings s1)) then Some s1
              else Option.bind (step_body f rs s1) (step_loop f rs (stp + 1))
      else Some s)"
  by (subst step_loop.simps) (simp add: Let_def split: option.splits)

lemmas eval_simps = model_defs for_each_upt step_loop_unfold Let_def
lemmas eval_congs = bind_weak_cong option.case_cong_weak let_weak_cong

section \<open>The settings during the initialisation\<close>

lemma init_gbest_settings: "init_gbest i s = Some s' \<Longrightarrow> settings s' = settings s"
  by (auto simp: init_gbest_def split: if_splits dest: set_gbest_settings)

lemma init_fit_settings [simp]: "settings (init_fit f i s) = settings s"
  by (simp add: init_fit_def eval_fit_def Let_def)

lemma init_particle_settings:
  assumes "init_particle f rs i s = Some s'" shows "settings s' = settings s"
proof -
  from assms obtain s1 where a: "for_loop (dim (settings s)) (init_coord rs i) s = Some s1"
    and b: "init_gbest i (init_fit f i s1) = Some s'"
    by (auto simp: init_particle_def split: bind_splits)
  from core_fields(1)[OF init_coords_core[OF a]] init_gbest_settings[OF b] show ?thesis by simp
qed

lemma init_swarm_settings:
  assumes "init_swarm f rs s = Some s'" shows "settings s' = settings s"
  using assms unfolding init_swarm_def
  by (rule for_loop_inv[where P="\<lambda>t. settings t = settings s"])
     (auto dest: init_particle_settings)

lemma pso_init_settings:
  assumes "pso_init f rs sol st = Some s" shows "settings s = st"
proof -
  from assms obtain s1 where a: "select_inform_fun rs (solver_new sol st) = Some s1"
    and b: "init_swarm f rs (select_inertia_fun s1) = Some s"
    by (auto simp: pso_init_def split: bind_splits)
  from core_fields(1)[OF select_inform_fun_core[OF a]] init_swarm_settings[OF b]
  show ?thesis by (simp add: select_inertia_fun_def split: if_splits)
qed

section \<open>A run in which no fitness is below \<^verbatim>\<open>DBL_MAX\<close>\<close>

lemma untouched_core: "core s' = core s \<Longrightarrow> untouched g0 s' = untouched g0 s"
  by (simp add: untouched_def core_def)

lemma set_gbest_untouched:
  assumes "set_gbest i s = Some s'" and "untouched g0 s" and "fit s i \<in> set (evals s)"
    and "dlt (fit s i) (error (solution s))"
  shows "untouched g0 s'"
proof -
  from assms(1) have e: "evals s' = evals s"
    by (auto simp: set_gbest_def Let_def split: bind_splits)
  from assms(2,3,4) have "\<exists>v\<in>set (evals s). dlt v DBL_MAX"
    by (auto simp: untouched_def)
  with e show ?thesis by (simp add: untouched_def)
qed

lemma eval_fit_untouched:
  "untouched g0 s \<Longrightarrow> untouched g0 (eval_fit f i s)"
  by (auto simp: untouched_def eval_fit_def Let_def)

lemma eval_fit_in_evals: "fit (eval_fit f i s) i \<in> set (evals (eval_fit f i s))"
  by (simp add: eval_fit_def Let_def)

lemma init_fit_untouched:
  "untouched g0 s \<Longrightarrow> untouched g0 (init_fit f i s) \<and>
     fit (init_fit f i s) i \<in> set (evals (init_fit f i s))"
  by (auto simp: untouched_def init_fit_def eval_fit_def Let_def)

lemma init_particle_untouched:
  assumes "init_particle f rs i s = Some s'" and "untouched g0 s"
  shows "untouched g0 s'"
proof -
  from assms(1) obtain s1 where a: "for_loop (dim (settings s)) (init_coord rs i) s = Some s1"
    and b: "init_gbest i (init_fit f i s1) = Some s'"
    by (auto simp: init_particle_def split: bind_splits)
  have "untouched g0 s1" using untouched_core[OF init_coords_core[OF a]] assms(2) by simp
  from init_fit_untouched[OF this, of f i] b show ?thesis
    by (cases "dlt (fit (init_fit f i s1) i) (error (solution (init_fit f i s1)))")
       (auto simp: init_gbest_def dest: set_gbest_untouched)
qed

lemma init_swarm_untouched:
  assumes "init_swarm f rs s = Some s'" and "err_log s = []"
  shows "untouched (gbest (solution s)) s'"
  using assms(1) unfolding init_swarm_def
proof (rule for_loop_inv[where P="untouched (gbest (solution s))"])
  show "untouched (gbest (solution s))
     (s\<lparr>solution := (solution s)\<lparr>error := DBL_MAX\<rparr>, err_log := err_log s @ [DBL_MAX]\<rparr>)"
    by (simp add: untouched_def assms(2))
qed (rule init_particle_untouched)

lemma update_pbest_keeps:
  "update_pbest i s = Some s' \<Longrightarrow>
     solution s' = solution s \<and> err_log s' = err_log s \<and> evals s' = evals s \<and> fit s' = fit s"
  by (auto simp: update_pbest_def split: bind_splits if_splits)

lemma update_particle_untouched:
  assumes "update_particle f rs i s = Some s'" and "untouched g0 s"
  shows "untouched g0 s'"
proof -
  from assms(1) obtain s1 s2 where
    a: "for_loop (dim (settings s)) (update_coord rs i) s = Some s1" and
    b: "update_pbest i (eval_fit f i s1) = Some s2" and
    c: "update_gbest i s2 = Some s'"
    by (auto simp: update_particle_def Let_def split: bind_splits)
  have "untouched g0 s1" using untouched_core[OF update_coords_core[OF a]] assms(2) by simp
  then have "untouched g0 (eval_fit f i s1)" by (rule eval_fit_untouched)
  then have u2: "untouched g0 s2" using update_pbest_keeps[OF b] by (simp add: untouched_def)
  have m2: "fit s2 i \<in> set (evals s2)"
    using update_pbest_keeps[OF b] eval_fit_in_evals[of f i s1] by simp
  show ?thesis
  proof (cases "dlt (fit s2 i) (error (solution s2))")
    case True
    with c have g: "set_gbest i (s2\<lparr>improved := 1\<rparr>) = Some s'"
      by (simp add: update_gbest_def)
    from u2 have "untouched g0 (s2\<lparr>improved := 1\<rparr>)" by (simp add: untouched_def)
    from set_gbest_untouched[OF g this] m2 True show ?thesis by simp
  next
    case False
    with c u2 show ?thesis by (simp add: update_gbest_def)
  qed
qed

lemma step_body_untouched:
  assumes "step_body f rs s = Some s'" and "untouched g0 s"
  shows "untouched g0 s'"
proof -
  from assms(1) obtain s1 s2 where
    a: "call_inform_fun rs s = Some s1" and
    b: "for_loop (size_s (settings s1)) (update_particle f rs) (s1\<lparr>improved := 0\<rparr>) = Some s2" and
    c: "s' = log_step s s1 s2"
    by (auto simp: step_body_def split: bind_splits)
  have "untouched g0 s1" using untouched_core[OF call_inform_fun_core[OF a]] assms(2) by simp
  then have "untouched g0 (s1\<lparr>improved := 0\<rparr>)" by (simp add: untouched_def)
  then have "untouched g0 s2"
    by (rule for_loop_inv[OF b, where P="untouched g0"]) (rule update_particle_untouched)
  with c show ?thesis by (simp add: untouched_def log_step_def)
qed

lemma step_head_untouched: "untouched g0 (step_head k s) = untouched g0 s"
  by (simp add: step_head_def untouched_def Let_def split: option.splits inertia_fun_t.splits)

lemma step_loop_untouched:
  assumes "step_loop f rs stp s = Some r" and "untouched g0 s"
  shows "untouched g0 r"
proof (rule step_loop_rule[OF assms(1), where P="\<lambda>k t. untouched g0 t" and Q="untouched g0"])
  show "untouched g0 s" by (rule assms(2))
next
  fix k and t t' :: solver
  assume "untouched g0 t" "step_body f rs (step_head k t) = Some t'"
  then show "untouched g0 t'" using step_body_untouched[of f rs "step_head k t" t' g0]
    by (simp add: step_head_untouched)
qed (simp_all add: step_head_untouched)

lemma pso_solve_untouched:
  assumes "pso_solve f rs sol st = Some r"
  shows "untouched (gbest sol) r"
proof -
  from assms obtain s0 s where a: "select_inform_fun rs (solver_new sol st) = Some s0"
    and b: "init_swarm f rs (select_inertia_fun s0) = Some s"
    and c: "step_loop f rs 0 s = Some r"
    by (auto simp: pso_solve_def pso_init_def split: bind_splits)
  have "core (select_inertia_fun s0) = core (solver_new sol st)"
    using select_inform_fun_core[OF a] by simp
  then have "err_log (select_inertia_fun s0) = []" "solution (select_inertia_fun s0) = sol"
    by (simp_all add: core_def)
  with init_swarm_untouched[OF b] have "untouched (gbest sol) s" by simp
  with c show ?thesis by (rule step_loop_untouched)
qed

text \<open>
  C10: \<^verbatim>\<open>solution->error\<close> is initialised to \<^verbatim>\<open>DBL_MAX\<close> and the buffer
  \<^verbatim>\<open>gbest\<close> is written only where a fitness compares strictly below the best error.
  So \<^verbatim>\<open>pso_solve\<close> returns (where the buffers are large enough), and if no value that the
  objective function returned in the run is strictly below \<^verbatim>\<open>DBL_MAX\<close>, it returns with
  \<^verbatim>\<open>solution->error == DBL_MAX\<close>, with the buffer \<^verbatim>\<open>gbest\<close> as the caller left it, and
  without any assignment of a best after the initialisation.
\<close>

theorem no_fitness_below_dbl_max:
  "(buffers_ok st sol \<longrightarrow> pso_solve f rs sol st \<noteq> None) \<and>
   (\<forall>r. pso_solve f rs sol st = Some r \<and> (\<forall>v\<in>set (evals r). \<not> dlt v DBL_MAX) \<longrightarrow>
        error (solution r) = DBL_MAX \<and> gbest (solution r) = gbest sol \<and> err_log r = [DBL_MAX])"
  using pso_solve_total[of st sol f rs] pso_solve_untouched[of f rs sol st]
  by (auto simp: untouched_def)

lemma run_nan_small:
  "map_option (\<lambda>r. (evals r, solution r))
     (pso_solve obj_nan rand_zero \<lparr>error = Fin 0, gbest = [Fin 42]\<rparr> settings_small) =
   Some ([NaN, NaN], \<lparr>error = DBL_MAX, gbest = [Fin 42]\<rparr>)"
  by (simp add: eval_simps settings_small_def rand_zero_def obj_nan_def cong: eval_congs)

text \<open>C10 on the small run with the objective function that returns NaN.\<close>

theorem no_fitness_below_dbl_max_witness:
  "buffers_ok settings_small \<lparr>error = Fin 0, gbest = [Fin 42]\<rparr> \<and>
   (\<exists>r. pso_solve obj_nan rand_zero \<lparr>error = Fin 0, gbest = [Fin 42]\<rparr> settings_small = Some r \<and>
        (\<forall>v\<in>set (evals r). \<not> dlt v DBL_MAX) \<and>
        error (solution r) = DBL_MAX \<and> gbest (solution r) = [Fin 42] \<and> err_log r = [DBL_MAX])"
proof -
  have b: "buffers_ok settings_small \<lparr>error = Fin 0, gbest = [Fin 42]\<rparr>"
    by (simp add: buffers_ok_def settings_small_def PSO_NHOOD_GLOBAL_def PSO_NHOOD_RING_def)
  note t = no_fitness_below_dbl_max[of settings_small "\<lparr>error = Fin 0, gbest = [Fin 42]\<rparr>"
      obj_nan rand_zero]
  from t b obtain r where
    r: "pso_solve obj_nan rand_zero \<lparr>error = Fin 0, gbest = [Fin 42]\<rparr> settings_small = Some r"
    by blast
  with run_nan_small have e: "evals r = [NaN, NaN]" by simp
  then have "\<forall>v\<in>set (evals r). \<not> dlt v DBL_MAX" by simp
  with t r b show ?thesis by auto
qed

section \<open>The best error after the initialisation\<close>

lemma init_coord_others:
  "init_coord rs i d s = Some s' \<Longrightarrow> \<forall>k. k \<noteq> i \<longrightarrow> pos s' k = pos s k"
  by (auto simp: init_coord_def RNG_UNIFORM_def Let_def split: bind_splits)

lemma init_coords_others:
  assumes "for_loop n (init_coord rs i) s = Some s'"
  shows "\<forall>k. k \<noteq> i \<longrightarrow> pos s' k = pos s k"
  by (rule for_loop_inv[OF assms, where P="\<lambda>t. \<forall>k. k \<noteq> i \<longrightarrow> pos t k = pos s k"])
     (auto dest: init_coord_others)

lemma init_inv_cong:
  assumes "init_inv f g0 k s" and "settings s' = settings s" and "solution s' = solution s"
    and "\<forall>j<k. fit s' j = fit s j" and "\<forall>j<k. pos s' j = pos s j"
  shows "init_inv f g0 k s'"
proof -
  note e = assms(2,3)
  from assms(4,5) have p: "\<And>i. i < k \<Longrightarrow> fit s' i = fit s i"
    "\<And>i. i < k \<Longrightarrow> pos s' i = pos s i" by simp_all
  from assms(1) have a: "\<forall>i<k. fit s i = f (row (pos s i) (dim (settings s)))"
    and b: "\<forall>i<k. \<not> dlt (fit s i) (error (solution s))"
    and c: "(error (solution s) = DBL_MAX \<and> gbest (solution s) = g0 \<and>
       (\<forall>i<k. \<not> dlt (fit s i) DBL_MAX)) \<or>
      (\<exists>i<k. error (solution s) = fit s i \<and> dlt (fit s i) DBL_MAX \<and>
         (\<forall>j<i. \<not> dle (fit s j) (fit s i)) \<and>
         gbest (solution s) =
           row (pos s i) (dim (settings s)) @ drop (nat (dim (settings s))) g0)"
    unfolding init_inv_def by blast+
  have a': "\<forall>i<k. fit s' i = f (row (pos s' i) (dim (settings s')))"
    using a by (simp add: p e)
  have b': "\<forall>i<k. \<not> dlt (fit s' i) (error (solution s'))"
    using b by (simp add: p e)
  from c have c': "(error (solution s') = DBL_MAX \<and> gbest (solution s') = g0 \<and>
       (\<forall>i<k. \<not> dlt (fit s' i) DBL_MAX)) \<or>
      (\<exists>i<k. error (solution s') = fit s' i \<and> dlt (fit s' i) DBL_MAX \<and>
         (\<forall>j<i. \<not> dle (fit s' j) (fit s' i)) \<and>
         gbest (solution s') =
           row (pos s' i) (dim (settings s')) @ drop (nat (dim (settings s'))) g0)"
  proof
    assume "error (solution s) = DBL_MAX \<and> gbest (solution s) = g0 \<and>
       (\<forall>i<k. \<not> dlt (fit s i) DBL_MAX)"
    then show ?thesis by (simp add: p e)
  next
    assume "\<exists>i<k. error (solution s) = fit s i \<and> dlt (fit s i) DBL_MAX \<and>
         (\<forall>j<i. \<not> dle (fit s j) (fit s i)) \<and>
         gbest (solution s) =
           row (pos s i) (dim (settings s)) @ drop (nat (dim (settings s))) g0"
    then obtain i where i: "i < k" "error (solution s) = fit s i" "dlt (fit s i) DBL_MAX"
      "\<forall>j<i. \<not> dle (fit s j) (fit s i)"
      "gbest (solution s) = row (pos s i) (dim (settings s)) @ drop (nat (dim (settings s))) g0"
      by blast
    have "\<forall>j<i. \<not> dle (fit s' j) (fit s' i)"
    proof (intro allI impI)
      fix j assume "j < i"
      with i(1) have "j < k" by simp
      with i(1,4) \<open>j < i\<close> show "\<not> dle (fit s' j) (fit s' i)" by (simp add: p)
    qed
    with i show ?thesis by (intro disjI2 exI[of _ i]) (simp add: p e)
  qed
  from a' b' c' show ?thesis unfolding init_inv_def by blast
qed

lemma length_row [simp]: "length (row r n) = nat n"
  by (simp add: row_def)

lemma set_gbest_result:
  assumes "set_gbest i s = Some s'"
  shows "error (solution s') = fit s i"
    and "gbest (solution s') = row (pos s i) (dim (settings s)) @ drop (nat (dim (settings s))) (gbest (solution s))"
    and "pos s' = pos s" and "fit s' = fit s" and "settings s' = settings s"
  using assms by (auto simp: set_gbest_def memmove_to_buf_def Let_def split: bind_splits if_splits)

lemma dlt_dle_trans: "dlt a b \<Longrightarrow> dle b c \<Longrightarrow> dlt a c"
  by (cases a; cases b; cases c) auto

lemma dle_refl_iff: "dle a a \<longleftrightarrow> a \<noteq> NaN"
  by (cases a) auto

lemma init_inv_keep:
  assumes "init_inv f g0 k s" and "fit s k = f (row (pos s k) (dim (settings s)))"
    and "\<not> dlt (fit s k) (error (solution s))"
  shows "init_inv f g0 (Suc k) s"
proof -
  from assms(1) have a: "\<forall>i<k. fit s i = f (row (pos s i) (dim (settings s)))"
    and b: "\<forall>i<k. \<not> dlt (fit s i) (error (solution s))"
    and c: "(error (solution s) = DBL_MAX \<and> gbest (solution s) = g0 \<and>
       (\<forall>i<k. \<not> dlt (fit s i) DBL_MAX)) \<or>
      (\<exists>i<k. error (solution s) = fit s i \<and> dlt (fit s i) DBL_MAX \<and>
         (\<forall>j<i. \<not> dle (fit s j) (fit s i)) \<and>
         gbest (solution s) =
           row (pos s i) (dim (settings s)) @ drop (nat (dim (settings s))) g0)"
    unfolding init_inv_def by blast+
  have a': "\<forall>i<Suc k. fit s i = f (row (pos s i) (dim (settings s)))"
    using a assms(2) by (simp add: less_Suc_eq)
  have b': "\<forall>i<Suc k. \<not> dlt (fit s i) (error (solution s))"
    using b assms(3) by (simp add: less_Suc_eq)
  from c have c': "(error (solution s) = DBL_MAX \<and> gbest (solution s) = g0 \<and>
       (\<forall>i<Suc k. \<not> dlt (fit s i) DBL_MAX)) \<or>
      (\<exists>i<Suc k. error (solution s) = fit s i \<and> dlt (fit s i) DBL_MAX \<and>
         (\<forall>j<i. \<not> dle (fit s j) (fit s i)) \<and>
         gbest (solution s) =
           row (pos s i) (dim (settings s)) @ drop (nat (dim (settings s))) g0)"
  proof
    assume l: "error (solution s) = DBL_MAX \<and> gbest (solution s) = g0 \<and>
       (\<forall>i<k. \<not> dlt (fit s i) DBL_MAX)"
    with assms(3) have "\<forall>i<Suc k. \<not> dlt (fit s i) DBL_MAX" by (simp add: less_Suc_eq)
    with l show ?thesis by blast
  next
    assume "\<exists>i<k. error (solution s) = fit s i \<and> dlt (fit s i) DBL_MAX \<and>
         (\<forall>j<i. \<not> dle (fit s j) (fit s i)) \<and>
         gbest (solution s) =
           row (pos s i) (dim (settings s)) @ drop (nat (dim (settings s))) g0"
    then show ?thesis using less_Suc_eq by blast
  qed
  from a' b' c' show ?thesis unfolding init_inv_def by blast
qed

lemma init_inv_new_best:
  assumes "init_inv f g0 k s" and "fit s k = f (row (pos s k) (dim (settings s)))"
    and "dlt (fit s k) (error (solution s))" and "set_gbest k s = Some s'"
  shows "init_inv f g0 (Suc k) s'"
proof -
  note r = set_gbest_result[OF assms(4)]
  from assms(1) have a: "\<forall>i<k. fit s i = f (row (pos s i) (dim (settings s)))"
    and b: "\<forall>i<k. \<not> dlt (fit s i) (error (solution s))"
    and c: "(error (solution s) = DBL_MAX \<and> gbest (solution s) = g0) \<or>
      (\<exists>i<k. error (solution s) = fit s i \<and> dlt (fit s i) DBL_MAX \<and>
         gbest (solution s) =
           row (pos s i) (dim (settings s)) @ drop (nat (dim (settings s))) g0)"
    unfolding init_inv_def by blast+
  have a': "\<forall>i<Suc k. fit s' i = f (row (pos s' i) (dim (settings s')))"
    using a assms(2) r by (simp add: less_Suc_eq)
  have b': "\<forall>i<Suc k. \<not> dlt (fit s' i) (error (solution s'))"
    using b assms(3) r by (auto simp: less_Suc_eq dest: dlt_trans)
  have m: "dlt (fit s k) DBL_MAX"
    using c assms(3) by (auto dest: dlt_trans)
  have t: "\<forall>j<k. \<not> dle (fit s j) (fit s k)"
    using b assms(3) by (auto dest: dle_dlt_trans)
  have d: "drop (nat (dim (settings s))) (gbest (solution s)) = drop (nat (dim (settings s))) g0"
    using c by auto
  have "error (solution s') = fit s' k \<and> dlt (fit s' k) DBL_MAX \<and>
         (\<forall>j<k. \<not> dle (fit s' j) (fit s' k)) \<and>
         gbest (solution s') =
           row (pos s' k) (dim (settings s')) @ drop (nat (dim (settings s'))) g0"
    using r m t d by simp
  then have c': "\<exists>i<Suc k. error (solution s') = fit s' i \<and> dlt (fit s' i) DBL_MAX \<and>
         (\<forall>j<i. \<not> dle (fit s' j) (fit s' i)) \<and>
         gbest (solution s') =
           row (pos s' i) (dim (settings s')) @ drop (nat (dim (settings s'))) g0"
    by blast
  from a' b' c' show ?thesis unfolding init_inv_def by blast
qed

lemma init_fit_result:
  "fit (init_fit f i s) = (fit s)(i := f (row (pos s i) (dim (settings s))))"
  "pos (init_fit f i s) = pos s" "solution (init_fit f i s) = solution s"
  by (simp_all add: init_fit_def eval_fit_def Let_def)

lemma init_particle_inv:
  assumes "init_particle f rs k s = Some s'" and "init_inv f g0 k s"
  shows "init_inv f g0 (Suc k) s'"
proof -
  from assms(1) obtain s1 where a: "for_loop (dim (settings s)) (init_coord rs k) s = Some s1"
    and b: "init_gbest k (init_fit f k s1) = Some s'"
    by (auto simp: init_particle_def split: bind_splits)
  define s2 where "s2 = init_fit f k s1"
  have c1: "settings s1 = settings s" "solution s1 = solution s" "fit s1 = fit s"
    using init_coords_core[OF a] by (simp_all add: core_def)
  have "init_inv f g0 k s1"
    by (rule init_inv_cong[OF assms(2)]) (use c1 init_coords_others[OF a] in simp_all)
  then have i2: "init_inv f g0 k s2"
    by (rule init_inv_cong) (simp_all add: s2_def init_fit_result)
  have f2: "fit s2 k = f (row (pos s2 k) (dim (settings s2)))"
    by (simp add: s2_def init_fit_result)
  show ?thesis
  proof (cases "dlt (fit s2 k) (error (solution s2))")
    case True
    with b have "set_gbest k s2 = Some s'" by (simp add: init_gbest_def s2_def)
    from init_inv_new_best[OF i2 f2 True this] show ?thesis .
  next
    case False
    with b have "s' = s2" by (simp add: init_gbest_def s2_def)
    with init_inv_keep[OF i2 f2 False] show ?thesis by simp
  qed
qed

lemma init_swarm_inv:
  assumes "init_swarm f rs s = Some s'"
  shows "init_inv f (gbest (solution s)) (nat (size_s (settings s))) s'"
  using assms unfolding init_swarm_def
proof (rule for_loop_inv_idx[where P="init_inv f (gbest (solution s))"])
  show "init_inv f (gbest (solution s)) 0
     (s\<lparr>solution := (solution s)\<lparr>error := DBL_MAX\<rparr>, err_log := err_log s @ [DBL_MAX]\<rparr>)"
    by (simp add: init_inv_def)
qed (rule init_particle_inv)

text \<open>
  C5, amended: after the initialisation of the swarm and before any step, the fitness of
  every particle is the objective function at its initial position and none is strictly
  below \<^verbatim>\<open>solution->error\<close>. If some fitness is strictly below \<^verbatim>\<open>DBL_MAX\<close>, then
  \<^verbatim>\<open>solution->error\<close> is the least fitness and the first \<^verbatim>\<open>dim\<close> cells of
  \<^verbatim>\<open>solution->gbest\<close> hold the position of the first particle that has it. If none is,
  \<^verbatim>\<open>solution->error\<close> is \<^verbatim>\<open>DBL_MAX\<close>, not the least fitness, and the buffer is as the
  caller left it.
\<close>

theorem init_best_error:
  assumes "pso_init f rs sol st = Some s"
  shows "(\<forall>i<nat (size_s st). fit s i = f (row (pos s i) (dim st)) \<and>
            \<not> dlt (fit s i) (error (solution s))) \<and>
         ((\<forall>i<nat (size_s st). \<not> dlt (fit s i) DBL_MAX) \<longrightarrow>
            error (solution s) = DBL_MAX \<and> gbest (solution s) = gbest sol) \<and>
         ((\<exists>i<nat (size_s st). dlt (fit s i) DBL_MAX) \<longrightarrow>
            (\<exists>i<nat (size_s st). error (solution s) = fit s i \<and>
               (\<forall>j<i. \<not> dle (fit s j) (fit s i)) \<and>
               gbest (solution s) = row (pos s i) (dim st) @ drop (nat (dim st)) (gbest sol)))"
proof -
  from assms obtain s0 where a: "select_inform_fun rs (solver_new sol st) = Some s0"
    and b: "init_swarm f rs (select_inertia_fun s0) = Some s"
    by (auto simp: pso_init_def split: bind_splits)
  have "core (select_inertia_fun s0) = core (solver_new sol st)"
    using select_inform_fun_core[OF a] by simp
  then have e: "settings (select_inertia_fun s0) = st" "solution (select_inertia_fun s0) = sol"
    by (simp_all add: core_def)
  have st: "settings s = st" using pso_init_settings[OF assms] .
  from init_swarm_inv[OF b] have "init_inv f (gbest sol) (nat (size_s st)) s" by (simp add: e)
  then show ?thesis unfolding init_inv_def st by blast
qed

lemma init_sphere_small:
  "map_option (\<lambda>s. fit s 0) (pso_init pso_sphere rand_zero result_demo settings_small) =
     Some (Fin 0)"
  by (simp add: eval_simps settings_small_def rand_zero_def result_demo_def pso_sphere_def
      cong: eval_congs)

text \<open>C5, amended, on the small run with the sphere function, whose only particle starts at 0.\<close>

theorem init_best_error_witness:
  "\<exists>s. pso_init pso_sphere rand_zero result_demo settings_small = Some s \<and>
       (\<exists>i<nat (size_s settings_small). dlt (fit s i) DBL_MAX) \<and>
       (\<exists>i<nat (size_s settings_small). error (solution s) = fit s i \<and>
          (\<forall>j<i. \<not> dle (fit s j) (fit s i)) \<and>
          gbest (solution s) =
            row (pos s i) (dim settings_small) @ drop (nat (dim settings_small)) (gbest result_demo))"
proof -
  from init_sphere_small obtain s where
    s: "pso_init pso_sphere rand_zero result_demo settings_small = Some s" and f: "fit s 0 = Fin 0"
    by auto
  have "dlt (fit s 0) DBL_MAX" by (simp add: f DBL_MAX_def DBL_MAX_r_def)
  then have "\<exists>i<nat (size_s settings_small). dlt (fit s i) DBL_MAX"
    by (auto simp: settings_small_def)
  with init_best_error[OF s] s show ?thesis by blast
qed

text \<open>
  C5, as the specification states it: with an objective function that returns \<open>+\<infinity>\<close>, the
  least fitness of the swarm is \<open>+\<infinity>\<close>, yet the best error after the initialisation is
  \<^verbatim>\<open>DBL_MAX\<close>, and the buffer holds the 42 of the caller, not the position 0 of the
  particle.
\<close>

theorem init_best_error_counterexample:
  "map_option (\<lambda>s. (error (solution s), fit s 0, gbest (solution s), row (pos s 0) 1))
     (pso_init obj_inf rand_zero \<lparr>error = Fin 0, gbest = [Fin 42]\<rparr> settings_small) =
     Some (DBL_MAX, PInf, [Fin 42], [Fin 0]) \<and> DBL_MAX \<noteq> PInf"
  by (simp add: eval_simps settings_small_def rand_zero_def obj_inf_def cong: eval_congs)

section \<open>The best informer\<close>

lemma scan_inv_step:
  assumes "scan_inv s j m b"
  shows "scan_inv s j (Suc m) (if informs s m j \<and> dlt (fit_b s m) (fit_b s b) then m else b)"
proof (cases "informs s m j \<and> dlt (fit_b s m) (fit_b s b)")
  case True
  from assms have c: "b = j \<or> dlt (fit_b s b) (fit_b s j)"
    and o: "\<forall>k<m. informs s k j \<longrightarrow> \<not> dlt (fit_b s k) (fit_b s b)"
    and n: "\<not> dlt (fit_b s j) (fit_b s b)"
    unfolding scan_inv_def by blast+
  from True have lt: "dlt (fit_b s m) (fit_b s b)" by simp
  have 1: "dlt (fit_b s m) (fit_b s j)" using c lt by (auto dest: dlt_trans)
  have 2: "\<forall>k<m. informs s k j \<longrightarrow> \<not> dle (fit_b s k) (fit_b s m)"
    using o lt by (auto dest: dle_dlt_trans)
  have 3: "\<forall>k<Suc m. informs s k j \<longrightarrow> \<not> dlt (fit_b s k) (fit_b s m)"
    using o lt by (auto simp: less_Suc_eq dest: dlt_trans)
  have 4: "\<not> dlt (fit_b s j) (fit_b s m)" using n lt by (auto dest: dlt_trans)
  from True 1 2 3 4 show ?thesis unfolding scan_inv_def by auto
next
  case False
  with assms show ?thesis unfolding scan_inv_def by (auto simp: less_Suc_eq)
qed

lemma scan_inv_foldl:
  "scan_inv s j m
     (foldl (\<lambda>b_n i. if comm s ! (i * nat (size_s (settings s)) + j) \<noteq> 0 \<and>
                          dlt (fit_b s i) (fit_b s b_n) then i else b_n) j [0..<m])"
proof (induction m)
  case 0
  show ?case by (simp add: scan_inv_def)
next
  case (Suc m)
  from scan_inv_step[OF Suc] show ?case by (simp add: informs_def)
qed

lemma best_informer_scan: "scan_inv s j (nat (size_s (settings s))) (best_informer s j)"
  unfolding best_informer_def by (rule scan_inv_foldl)

lemma best_informer_cong:
  "comm t = comm s \<Longrightarrow> fit_b t = fit_b s \<Longrightarrow> settings t = settings s \<Longrightarrow>
   best_informer t j = best_informer s j"
  by (simp add: best_informer_def)

lemma inform_informed:
  assumes "inform s = Some s'"
  shows "informed s (nat (size_s (settings s))) s'"
  using assms unfolding inform_def
proof (rule for_loop_inv_idx[where P="informed s"])
  show "informed s 0 s" by (simp add: informed_def)
next
  fix j and t t' :: solver
  assume t: "informed s j t"
    and b: "do { r \<leftarrow> memmove_rows (pos_nb t j) (pos_b t (best_informer t j)) (dim (settings t));
                 Some (t\<lparr>pos_nb := (pos_nb t)(j := r)\<rparr>) } = Some t'"
  from t have e: "comm t = comm s" "fit_b t = fit_b s" "settings t = settings s" "pos_b t = pos_b s"
    and old: "\<forall>k<j. \<forall>d<nat (dim (settings s)). pos_nb t k d = pos_b s (best_informer s k) d"
    by (simp_all add: informed_def)
  have bi: "best_informer t j = best_informer s j" by (rule best_informer_cong[OF e(1,2,3)])
  from b obtain r where r: "memmove_rows (pos_nb t j) (pos_b t (best_informer t j)) (dim (settings t)) = Some r"
    and t': "t' = t\<lparr>pos_nb := (pos_nb t)(j := r)\<rparr>"
    by (auto split: bind_splits)
  from r have rd: "\<forall>d<nat (dim (settings s)). r d = pos_b s (best_informer s j) d"
    unfolding memmove_rows_def e bi by (auto split: if_splits)
  have "\<forall>k<Suc j. \<forall>d<nat (dim (settings s)). pos_nb t' k d = pos_b s (best_informer s k) d"
  proof (intro allI impI)
    fix k d assume k: "k < Suc j" and d: "d < nat (dim (settings s))"
    show "pos_nb t' k d = pos_b s (best_informer s k) d"
    proof (cases "k = j")
      case True
      with rd d show ?thesis by (simp add: t')
    next
      case False
      with k old d show ?thesis by (simp add: t')
    qed
  qed
  moreover have "comm t' = comm s" "fit_b t' = fit_b s" "settings t' = settings s" "pos_b t' = pos_b s"
    using e by (simp_all add: t')
  ultimately show "informed s (Suc j) t'"
    by (simp add: informed_def)
qed

lemma foldl_upt:
  "foldl g b [i..<j] = (if i < j then foldl g (g b i) [Suc i..<j] else b)"
  by (simp add: upt_rec[of i j])

lemma buffers_ok_ring2: "buffers_ok settings_ring2 result_demo"
  by (simp add: buffers_ok_def settings_ring2_def result_demo_def)

text \<open>
  C2, amended: \<^verbatim>\<open>inform\<close> (the Ring and the Random topology) copies into
  \<^verbatim>\<open>pos_nb[j]\<close> the best position of the particle \<open>b_n\<close> that its scan selects. No
  informer of \<open>j\<close>, and not \<open>j\<close> itself, has a best fitness strictly below that of
  \<open>b_n\<close>. A tie goes to \<open>j\<close> itself first, whatever its index: \<open>b_n\<close> is \<open>j\<close> unless an
  informer is strictly better than \<open>j\<close>, and then \<open>b_n\<close> is the informer of the smallest
  index among those of the least fitness.
\<close>

theorem inform_best_informer:
  assumes "inform s = Some s'" and "j < nat (size_s (settings s))"
  shows "row (pos_nb s' j) (dim (settings s)) = row (pos_b s (best_informer s j)) (dim (settings s)) \<and>
         (\<forall>k<nat (size_s (settings s)). informs s k j \<longrightarrow>
            \<not> dlt (fit_b s k) (fit_b s (best_informer s j))) \<and>
         \<not> dlt (fit_b s j) (fit_b s (best_informer s j)) \<and>
         (best_informer s j = j \<or>
          (best_informer s j < nat (size_s (settings s)) \<and> informs s (best_informer s j) j \<and>
           dlt (fit_b s (best_informer s j)) (fit_b s j) \<and>
           (\<forall>k<best_informer s j. informs s k j \<longrightarrow>
              \<not> dle (fit_b s k) (fit_b s (best_informer s j)))))"
proof -
  from inform_informed[OF assms(1)] assms(2)
  have "\<forall>d<nat (dim (settings s)). pos_nb s' j d = pos_b s (best_informer s j) d"
    by (simp add: informed_def)
  then have "row (pos_nb s' j) (dim (settings s)) =
      row (pos_b s (best_informer s j)) (dim (settings s))"
    by (simp add: row_def)
  with best_informer_scan[of s j] show ?thesis unfolding scan_inv_def by blast
qed

text \<open>C2, amended, on the ring of two particles after its initialisation, for particle 1.\<close>

theorem inform_best_informer_witness:
  "\<exists>s s'. pso_init obj_one rand_id result_demo settings_ring2 = Some s \<and> inform s = Some s' \<and>
      1 < nat (size_s (settings s)) \<and>
      row (pos_nb s' 1) (dim (settings s)) = row (pos_b s (best_informer s 1)) (dim (settings s)) \<and>
      \<not> dlt (fit_b s 1) (fit_b s (best_informer s 1))"
proof -
  from pso_init_total[OF buffers_ok_ring2] obtain s where
    s: "pso_init obj_one rand_id result_demo settings_ring2 = Some s" and "safe s" by blast
  from inform_total[OF this(2)] obtain s' where s': "inform s = Some s'" by blast
  have j: "1 < nat (size_s (settings s))"
    using pso_init_settings[OF s] by (simp add: settings_ring2_def)
  from inform_best_informer[OF s' j] s s' j show ?thesis by blast
qed

text \<open>
  C2, as the specification states it: in the run of the ring of two particles, particle 0
  informs particle 1 and both have the best fitness 1, so the informer of the smallest index
  with the least fitness is particle 0, whose best position is 0. The informant position of
  particle 1 is its own best position, 2: the scan starts from \<open>j\<close> and replaces it only on
  a strictly smaller fitness.
\<close>

theorem inform_tie_counterexample:
  "map_option (\<lambda>r. (informs r 0 1, fit_b r 0, fit_b r 1, row (pos_b r 0) 1, row (pos_b r 1) 1,
                    row (pos_nb r 1) 1))
     (pso_solve obj_one rand_id result_demo settings_ring2) =
   Some (True, Fin 1, Fin 1, [Fin 0], [Fin 2], [Fin 2])"
  by (simp add: eval_simps foldl_upt informs_def settings_ring2_def rand_id_def result_demo_def
      obj_one_def cong: eval_congs)

section \<open>The clamp\<close>

lemma dle_total: "a \<noteq> NaN \<Longrightarrow> b \<noteq> NaN \<Longrightarrow> \<not> dlt a b \<Longrightarrow> dle b a"
  by (cases a; cases b) auto

lemma dle_not_nan: "dle a b \<Longrightarrow> a \<noteq> NaN \<and> b \<noteq> NaN"
  by (cases a; cases b) auto

lemma dlt_not_nan: "dlt a b \<Longrightarrow> a \<noteq> NaN \<and> b \<noteq> NaN"
  by (cases a; cases b) auto

lemma dle_refl: "a \<noteq> NaN \<Longrightarrow> dle a a"
  by (cases a) auto

lemma clamp_coord_result:
  assumes "clamp_coord i d t = Some s'"
    and "rd (range_lo (settings t)) (int d) = Some lo"
    and "rd (range_hi (settings t)) (int d) = Some hi"
  shows "pos s' i d = (if dlt (pos t i d) lo then lo else if dgt (pos t i d) hi then hi else pos t i d)"
    and "dlt (pos t i d) lo \<or> dgt (pos t i d) hi \<Longrightarrow> vel s' i d = Fin 0"
  using assms by (auto simp: clamp_coord_def split: if_splits)

text \<open>
  C4, amended: under the clamp (\<^verbatim>\<open>clamp_pos\<close> not zero) and with
  \<^verbatim>\<open>range_lo[d] <= range_hi[d]\<close>, after the update of coordinate \<open>d\<close> of particle
  \<open>i\<close> the position is within the bounds unless it is NaN, which it is exactly when the
  position that the velocity update produced is NaN; and where that position was below the
  lower or above the upper bound, the velocity of the coordinate is 0.
\<close>

theorem clamp_keeps_in_bounds:
  assumes "update_coord rs i d s = Some s'" and "clamp_pos (settings s) \<noteq> 0"
    and "rd (range_lo (settings s)) (int d) = Some lo"
    and "rd (range_hi (settings s)) (int d) = Some hi"
    and "dle lo hi"
  shows "(pos s' i d = NaN \<longleftrightarrow> pos (move_coord rs i d s) i d = NaN) \<and>
         (pos s' i d \<noteq> NaN \<longrightarrow> dle lo (pos s' i d) \<and> dle (pos s' i d) hi) \<and>
         (dlt (pos (move_coord rs i d s) i d) lo \<or> dgt (pos (move_coord rs i d s) i d) hi \<longrightarrow>
            vel s' i d = Fin 0)"
proof -
  define t where "t = move_coord rs i d s"
  define p where "p = pos t i d"
  have st: "settings t = settings s" by (simp add: t_def)
  from assms(1,2) have c: "clamp_coord i d t = Some s'"
    by (simp add: update_coord_def Let_def t_def)
  note r = clamp_coord_result[OF c assms(3,4)[folded st]]
  from assms(5) have n: "lo \<noteq> NaN" "hi \<noteq> NaN" using dle_not_nan by blast+
  have 1: "pos s' i d = NaN \<longleftrightarrow> p = NaN"
    using r(1) n dlt_not_nan[of p lo] dlt_not_nan[of hi p] by (auto simp: p_def dgt_def)
  have 2: "dle lo (pos s' i d) \<and> dle (pos s' i d) hi" if "pos s' i d \<noteq> NaN"
  proof (cases "dlt p lo")
    case True
    with r(1) assms(5) n show ?thesis by (simp add: p_def dle_refl)
  next
    case False
    show ?thesis
    proof (cases "dlt hi p")
      case True
      with False r(1) assms(5) n show ?thesis by (simp add: p_def dgt_def dle_refl)
    next
      case nh: False
      from False nh r(1) have e: "pos s' i d = p" by (simp add: p_def dgt_def)
      with that have "p \<noteq> NaN" by simp
      with False nh n e show ?thesis by (simp add: dle_total)
    qed
  qed
  from 1 2 r(2) show ?thesis unfolding p_def t_def by blast
qed

lemma update_coord_fast:
  "map_option (\<lambda>s. (pos s 0 0, vel s 0 0)) (update_coord rand_zero 0 0 solver_fast) =
     Some (Fin 1, Fin 0)"
  by (simp add: eval_simps solver_fast_def settings_small_def rand_zero_def result_demo_def
      cong: eval_congs)

text \<open>C4, amended, on the fast particle: it overshoots the upper bound 1 and is clamped there.\<close>

theorem clamp_keeps_in_bounds_witness:
  "\<exists>s'. update_coord rand_zero 0 0 solver_fast = Some s' \<and>
        clamp_pos (settings solver_fast) \<noteq> 0 \<and>
        rd (range_lo (settings solver_fast)) (int 0) = Some (Fin 0) \<and>
        rd (range_hi (settings solver_fast)) (int 0) = Some (Fin 1) \<and> dle (Fin 0) (Fin 1) \<and>
        dgt (pos (move_coord rand_zero 0 0 solver_fast) 0 0) (Fin 1) \<and>
        pos s' 0 0 = Fin 1 \<and> dle (Fin 0) (pos s' 0 0) \<and> dle (pos s' 0 0) (Fin 1) \<and>
        vel s' 0 0 = Fin 0"
proof -
  from update_coord_fast obtain s' where s': "update_coord rand_zero 0 0 solver_fast = Some s'"
    and p: "pos s' 0 0 = Fin 1" by auto
  have h: "clamp_pos (settings solver_fast) \<noteq> 0"
    "rd (range_lo (settings solver_fast)) (int 0) = Some (Fin 0)"
    "rd (range_hi (settings solver_fast)) (int 0) = Some (Fin 1)" "dle (Fin 0) (Fin 1)"
    by (simp_all add: solver_fast_def settings_small_def rd_def)
  have m: "dgt (pos (move_coord rand_zero 0 0 solver_fast) 0 0) (Fin 1)"
    by (simp add: eval_simps solver_fast_def settings_small_def rand_zero_def result_demo_def
        cong: eval_congs)
  from clamp_keeps_in_bounds[OF s' h] s' h m p show ?thesis by auto
qed

text \<open>
  C4, as the specification states it: with the bounds \<open>-DBL_MAX\<close> and \<open>DBL_MAX\<close> the
  initial position is \<open>+\<infinity>\<close> and the initial velocity is \<open>\<infinity> - \<infinity>\<close>, a NaN; after the
  one step of the run the position is NaN, for which both tests of the clamp are false, and
  a NaN is not within the bounds.
\<close>

theorem clamp_in_bounds_counterexample:
  "map_option (\<lambda>r. (pos r 0 0, clamp_pos (settings r), range_lo (settings r), range_hi (settings r)))
     (pso_solve pso_sphere rand_demo result_demo settings_wide) =
     Some (NaN, 1, [Fin (- DBL_MAX_r)], [Fin DBL_MAX_r]) \<and>
   dle (Fin (- DBL_MAX_r)) (Fin DBL_MAX_r) \<and> \<not> dle (Fin (- DBL_MAX_r)) NaN"
  by (simp add: eval_simps settings_wide_def rand_demo_def result_demo_def pso_sphere_def
      signed_inf_def cong: eval_congs)

section \<open>Fitness values that are not numbers\<close>

lemma update_coord_pos_b: "update_coord rs i d s = Some s' \<Longrightarrow> pos_b s' = pos_b s"
  by (auto simp: update_coord_def move_coord_def clamp_coord_def periodic_coord_def
      RNG_UNIFORM_def Let_def split: bind_splits if_splits)

lemma update_coords_pos_b:
  "for_loop n (update_coord rs i) s = Some s' \<Longrightarrow> pos_b s' = pos_b s"
  by (erule for_loop_inv[where P="\<lambda>t. pos_b t = pos_b s"]) (auto dest: update_coord_pos_b)

lemma not_dlt_anomaly [simp]: "\<not> dlt NaN x" "\<not> dlt PInf x"
  by (cases x; simp)+

lemma update_best_anomaly:
  assumes "update_pbest i t = Some s2" and "update_gbest i s2 = Some s'"
    and "fit t i = NaN \<or> fit t i = PInf"
  shows "s' = t"
proof -
  from assms(3) have "\<not> dlt (fit t i) (fit_b t i)" by auto
  with assms(1) have e: "s2 = t" by (simp add: update_pbest_def)
  from assms(3) have "\<not> dlt (fit t i) (error (solution t))" by auto
  with assms(2) e show ?thesis by (simp add: update_gbest_def)
qed

lemma update_particle_anomaly:
  assumes "update_particle f rs i s = Some s'" and "fit s' i = NaN \<or> fit s' i = PInf"
  shows "fit s' i = f (row (pos s' i) (dim (settings s))) \<and>
      fit_b s' = fit_b s \<and> pos_b s' = pos_b s \<and> solution s' = solution s \<and>
      improved s' = improved s \<and> err_log s' = err_log s"
proof -
  from assms(1) obtain s1 s2 where
    l: "for_loop (dim (settings s)) (update_coord rs i) s = Some s1" and
    b: "update_pbest i (eval_fit f i s1) = Some s2" and
    c: "update_gbest i s2 = Some s'"
    by (auto simp: update_particle_def Let_def split: bind_splits)
  define t where "t = eval_fit f i s1"
  have k: "fit s2 = fit t" using update_pbest_keeps[OF b] by (simp add: t_def)
  have "fit s' = fit s2" using c
    by (auto simp: update_gbest_def set_gbest_def Let_def split: if_splits bind_splits)
  with assms(2) k have an: "fit t i = NaN \<or> fit t i = PInf" by simp
  from update_best_anomaly[OF b[folded t_def] c an] have e: "s' = t" .
  have c1: "core s1 = core s" by (rule update_coords_core[OF l])
  have "fit t i = f (row (pos t i) (dim (settings s)))"
    using c1 by (simp add: t_def eval_fit_def Let_def core_def)
  moreover have "fit_b t = fit_b s" "solution t = solution s" "improved t = improved s"
    "err_log t = err_log s"
    using c1 by (simp_all add: t_def eval_fit_def Let_def core_def)
  moreover have "pos_b t = pos_b s"
    using update_coords_pos_b[OF l] by (simp add: t_def eval_fit_def Let_def)
  ultimately show ?thesis unfolding e by simp
qed

lemma init_particle_anomaly:
  assumes "init_particle f rs i s = Some s'" and "fit s' i = NaN \<or> fit s' i = PInf"
  shows "fit s' i = f (row (pos s' i) (dim (settings s))) \<and>
      solution s' = solution s \<and> err_log s' = err_log s"
proof -
  from assms(1) obtain s1 where l: "for_loop (dim (settings s)) (init_coord rs i) s = Some s1"
    and b: "init_gbest i (init_fit f i s1) = Some s'"
    by (auto simp: init_particle_def split: bind_splits)
  define t where "t = init_fit f i s1"
  have "fit s' = fit t" using b
    by (auto simp: init_gbest_def set_gbest_def Let_def t_def split: if_splits bind_splits)
  with assms(2) have "\<not> dlt (fit t i) (error (solution t))" by auto
  with b have e: "s' = t" by (simp add: init_gbest_def t_def)
  have c1: "core s1 = core s" by (rule init_coords_core[OF l])
  then show ?thesis
    unfolding e by (simp add: t_def init_fit_def eval_fit_def Let_def core_def)
qed

lemma log_ok_not_anomaly:
  assumes "log_ok s"
  shows "error (solution s) \<noteq> NaN \<and> error (solution s) \<noteq> PInf"
proof -
  from assms have ne: "err_log s \<noteq> []" and h: "hd (err_log s) = DBL_MAX"
    and l: "last (err_log s) = error (solution s)"
    and srt: "sorted_wrt (\<lambda>a b. dlt b a) (err_log s)"
    by (simp_all add: log_ok_def)
  from ne have "hd (err_log s) \<in> set (err_log s)" by simp
  from sorted_wrt_last[OF srt this] h l
  have "error (solution s) = DBL_MAX \<or> dlt (error (solution s)) DBL_MAX" by auto
  then show ?thesis
  proof
    assume "error (solution s) = DBL_MAX"
    then show ?thesis by (simp add: DBL_MAX_def)
  next
    assume "dlt (error (solution s)) DBL_MAX"
    then show ?thesis by (cases "error (solution s)") auto
  qed
qed

text \<open>
  C7, amended: if the objective function returns NaN or \<open>+\<infinity>\<close> for a particle at a step,
  that value compares below nothing, as \<open>+\<infinity>\<close> does: the step updates neither the best
  fitness nor the best position of any particle, nor the global best, and \<^verbatim>\<open>improved\<close>
  stays as it was, so that the tracking of the bests is after the evaluation what it was
  before it; and the best error of a run is never NaN or \<open>+\<infinity>\<close>.
\<close>

theorem anomaly_never_improves:
  "(update_particle f rs i s = Some s' \<and> (fit s' i = NaN \<or> fit s' i = PInf) \<longrightarrow>
      fit s' i = f (row (pos s' i) (dim (settings s))) \<and>
      (\<forall>x. \<not> dlt (fit s' i) x) \<and>
      fit_b s' = fit_b s \<and> pos_b s' = pos_b s \<and> solution s' = solution s \<and>
      improved s' = improved s \<and> err_log s' = err_log s) \<and>
   (pso_solve f rs sol st = Some r \<longrightarrow>
      error (solution r) \<noteq> NaN \<and> error (solution r) \<noteq> PInf)"
proof -
  have "error (solution r) \<noteq> NaN \<and> error (solution r) \<noteq> PInf"
    if "pso_solve f rs sol st = Some r"
  proof -
    from that obtain t where a: "pso_init f rs sol st = Some t" and b: "step_loop f rs 0 t = Some r"
      by (auto simp: pso_solve_def split: bind_splits)
    from step_loop_log_ok[OF b pso_init_log_ok[OF a]] show ?thesis by (rule log_ok_not_anomaly)
  qed
  moreover have "\<forall>x. \<not> dlt (fit s' i) x" if "fit s' i = NaN \<or> fit s' i = PInf"
    using that by auto
  ultimately show ?thesis using update_particle_anomaly[of f rs i s s'] by blast
qed

lemma update_particle_nan:
  "map_option (\<lambda>s. fit s 0) (update_particle obj_nan rand_zero 0 solver_fast) = Some NaN"
  by (simp add: eval_simps solver_fast_def settings_small_def rand_zero_def result_demo_def
      obj_nan_def cong: eval_congs)

text \<open>
  C7, amended, on the fast particle and on the small run, with the objective function that
  returns NaN.
\<close>

theorem anomaly_never_improves_witness:
  "(\<exists>s'. update_particle obj_nan rand_zero 0 solver_fast = Some s' \<and> fit s' 0 = NaN \<and>
         fit_b s' = fit_b solver_fast \<and> pos_b s' = pos_b solver_fast \<and>
         solution s' = solution solver_fast \<and> improved s' = improved solver_fast) \<and>
   (\<exists>r. pso_solve obj_nan rand_zero result_demo settings_small = Some r \<and>
         error (solution r) \<noteq> NaN \<and> error (solution r) \<noteq> PInf)"
proof -
  from update_particle_nan obtain u where
    u: "update_particle obj_nan rand_zero 0 solver_fast = Some u" "fit u 0 = NaN" by auto
  have "buffers_ok settings_small result_demo"
    by (simp add: buffers_ok_def settings_small_def result_demo_def PSO_NHOOD_GLOBAL_def
        PSO_NHOOD_RING_def)
  from pso_solve_total[OF this] obtain r where
    r: "pso_solve obj_nan rand_zero result_demo settings_small = Some r" by blast
  from anomaly_never_improves[of obj_nan rand_zero 0 solver_fast u result_demo settings_small r]
    u r
  show ?thesis by auto
qed

text \<open>
  C7, as the specification states it, for an infinite value: the objective function returns
  1 at the initial position and \<open>-\<infinity>\<close> at the position after the step; that value becomes
  the best fitness of the particle and the best error of the run.
\<close>

theorem negative_infinity_improves_counterexample:
  "map_option (\<lambda>r. (evals r, err_log r, error (solution r), fit_b r 0))
     (pso_solve obj_drop rand_two result_demo settings_long) =
     Some ([Fin 1, NInf], [DBL_MAX, Fin 1, NInf], NInf, NInf)"
  by (simp add: eval_simps settings_long_def rand_two_def result_demo_def obj_drop_def
      cong: eval_congs)

section \<open>The regeneration of the random neighbourhood\<close>

lemma init_coord_wiring: "init_coord rs i d s = Some s' \<Longrightarrow> wiring s' = wiring s"
  by (auto simp: init_coord_def wiring_def RNG_UNIFORM_def Let_def split: bind_splits)

lemma set_gbest_wiring:
  "set_gbest i s = Some s' \<Longrightarrow> wiring s' = wiring s \<and> improved s' = improved s"
  by (auto simp: set_gbest_def wiring_def Let_def split: bind_splits)

lemma init_particle_wiring:
  assumes "init_particle f rs i s = Some s'"
  shows "wiring s' = wiring s \<and> improved s' = improved s"
proof -
  from assms obtain s1 where a: "for_loop (dim (settings s)) (init_coord rs i) s = Some s1"
    and b: "init_gbest i (init_fit f i s1) = Some s'"
    by (auto simp: init_particle_def split: bind_splits)
  have "wiring s1 = wiring s"
    by (rule for_loop_inv[OF a, where P="\<lambda>t. wiring t = wiring s"])
       (auto dest: init_coord_wiring)
  moreover have "improved s1 = improved s" using init_coords_core[OF a] by (simp add: core_def)
  moreover have "wiring (init_fit f i s1) = wiring s1" "improved (init_fit f i s1) = improved s1"
    by (simp_all add: wiring_def init_fit_def eval_fit_def Let_def)
  moreover have "wiring s' = wiring (init_fit f i s1) \<and> improved s' = improved (init_fit f i s1)"
    using b by (auto simp: init_gbest_def split: if_splits dest: set_gbest_wiring)
  ultimately show ?thesis by simp
qed

lemma init_swarm_wiring:
  assumes "init_swarm f rs s = Some s'"
  shows "wiring s' = wiring s \<and> improved s' = improved s"
  using assms unfolding init_swarm_def
  by (rule for_loop_inv[where P="\<lambda>t. wiring t = wiring s \<and> improved t = improved s"])
     (auto simp: wiring_def dest: init_particle_wiring)














section \<open>The settings after a run\<close>

lemma update_particle_step_log:
  assumes "update_particle f rs i s = Some s'" shows "step_log s' = step_log s"
proof -
  from assms obtain s1 s2 where
    a: "for_loop (dim (settings s)) (update_coord rs i) s = Some s1" and
    b: "update_pbest i (eval_fit f i s1) = Some s2" and
    c: "update_gbest i s2 = Some s'"
    by (auto simp: update_particle_def Let_def split: bind_splits)
  have "step_log s1 = step_log s" using update_coords_core[OF a] by (simp add: core_def)
  moreover have "step_log s2 = step_log s1"
    using b by (auto simp: update_pbest_def eval_fit_def Let_def split: bind_splits if_splits)
  moreover have "step_log s' = step_log s2"
    using c by (auto simp: update_gbest_def set_gbest_def Let_def split: bind_splits if_splits)
  ultimately show ?thesis by simp
qed

lemma step_body_step_log:
  assumes "step_body f rs s = Some s'"
  shows "\<exists>e. step_log s' = step_log s @ [e] \<and> ev_step e = step (settings s)"
proof -
  from assms obtain s1 s2 where
    a: "call_inform_fun rs s = Some s1" and
    b: "for_loop (size_s (settings s1)) (update_particle f rs) (s1\<lparr>improved := 0\<rparr>) = Some s2" and
    c: "s' = log_step s s1 s2"
    by (auto simp: step_body_def split: bind_splits)
  have "step_log s1 = step_log s" using call_inform_fun_core[OF a] by (simp add: core_def)
  moreover have "step_log s2 = step_log s1"
    by (rule for_loop_inv[OF b, where P="\<lambda>t. step_log t = step_log s1"])
       (auto dest: update_particle_step_log)
  ultimately show ?thesis by (simp add: c log_step_def)
qed

lemma step_loop_last_step:
  assumes "step_loop f rs 0 s = Some r" and "step_log s = []"
  shows "settings r = (settings s)\<lparr>step := step (settings r)\<rparr> \<and>
         (steps (settings s) \<le> 0 \<longrightarrow> settings r = settings s \<and> step_log r = []) \<and>
         (0 < steps (settings s) \<longrightarrow>
            int (length (step_log r)) \<le> steps (settings s) \<and>
            step (settings r) =
              (if int (length (step_log r)) < steps (settings s)
               then int (length (step_log r)) else steps (settings s) - 1) \<and>
            (int (length (step_log r)) < steps (settings s) \<longrightarrow>
               dle (error (solution r)) (goal (settings s)))) \<and>
         (\<forall>k<length (step_log r). ev_step (step_log r ! k) = int k)"
proof -
  define P where "P = (\<lambda>(k::int) (t::solver).
      0 \<le> k \<and> settings t = (settings s)\<lparr>step := step (settings t)\<rparr> \<and>
      length (step_log t) = nat k \<and>
      (\<forall>j<length (step_log t). ev_step (step_log t ! j) = int j) \<and>
      (k = 0 \<longrightarrow> settings t = settings s) \<and>
      (0 < k \<longrightarrow> step (settings t) = k - 1 \<and> k \<le> steps (settings s)))"
  define Q where "Q = (\<lambda>t::solver.
      settings t = (settings s)\<lparr>step := step (settings t)\<rparr> \<and>
      (steps (settings s) \<le> 0 \<longrightarrow> settings t = settings s \<and> step_log t = []) \<and>
      (0 < steps (settings s) \<longrightarrow>
         int (length (step_log t)) \<le> steps (settings s) \<and>
         step (settings t) =
           (if int (length (step_log t)) < steps (settings s)
            then int (length (step_log t)) else steps (settings s) - 1) \<and>
         (int (length (step_log t)) < steps (settings s) \<longrightarrow>
            dle (error (solution t)) (goal (settings s)))) \<and>
      (\<forall>k<length (step_log t). ev_step (step_log t ! k) = int k))"
  have eq: "settings t = (settings s)\<lparr>step := step (settings t)\<rparr>" if "P k t" for k t
    using that by (simp add: P_def)
  have same: "steps (settings t) = steps (settings s)" "goal (settings t) = goal (settings s)"
    if "P k t" for k t
    by (subst eq[OF that], simp)+
  have upd: "(settings t)\<lparr>step := j\<rparr> = (settings s)\<lparr>step := j\<rparr>" if "P k t" for k t j
    by (subst eq[OF that]) simp
  have head: "step_log (step_head k t) = step_log t"
    "error (solution (step_head k t)) = error (solution t)" for k t
    by (simp_all add: step_head_def Let_def split: option.splits inertia_fun_t.splits)
  have "Q r"
  proof (rule step_loop_rule[OF assms(1), where P=P and Q=Q])
    show "P 0 s" by (simp add: P_def assms(2))
  next
    fix k and t t' :: solver
    assume k: "k < steps (settings t)" and p: "P k t"
      and b: "step_body f rs (step_head k t) = Some t'"
    have st: "settings t' = (settings s)\<lparr>step := k\<rparr>"
      using step_body_settings[OF b] upd[OF p] by simp
    from step_body_step_log[OF b] obtain e where
      l: "step_log t' = step_log t @ [e]" and e: "ev_step e = k" by (auto simp: head)
    from p have len: "length (step_log t) = nat k" and k0: "0 \<le> k"
      and old: "\<forall>j<length (step_log t). ev_step (step_log t ! j) = int j"
      by (simp_all add: P_def)
    have "\<forall>j<length (step_log t'). ev_step (step_log t' ! j) = int j"
    proof (intro allI impI)
      fix j assume "j < length (step_log t')"
      then have "j < length (step_log t) \<or> j = length (step_log t)" by (auto simp: l)
      then show "ev_step (step_log t' ! j) = int j"
        using old e len k0 by (auto simp: l nth_append)
    qed
    moreover have "length (step_log t') = nat (k + 1)" using len k0 by (auto simp: l)
    ultimately show "P (k + 1) t'" using k k0 same[OF p] st by (simp add: P_def)
  next
    fix k and t :: solver
    assume k: "k < steps (settings t)" and p: "P k t"
      and g: "dle (error (solution (step_head k t))) (goal (settings t))"
    have "settings (step_head k t) = (settings s)\<lparr>step := k\<rparr>"
      using upd[OF p] by simp
    with k p g same[OF p] show "Q (step_head k t)" by (auto simp: P_def Q_def head)
  next
    fix k and t :: solver
    assume k: "\<not> k < steps (settings t)" and p: "P k t"
    with same[OF p] show "Q t" unfolding P_def Q_def by (cases "k = 0") auto
  qed
  then show ?thesis by (simp add: Q_def)
qed

lemma pso_init_step_log:
  assumes "pso_init f rs sol st = Some s" shows "step_log s = []"
proof -
  from assms obtain s0 where a: "select_inform_fun rs (solver_new sol st) = Some s0"
    and b: "init_swarm f rs (select_inertia_fun s0) = Some s"
    by (auto simp: pso_init_def split: bind_splits)
  have "step_log s0 = []" using select_inform_fun_core[OF a] by (simp add: core_def)
  then have "step_log (select_inertia_fun s0) = []" by (simp add: select_inertia_fun_def)
  with init_swarm_wiring[OF b] show ?thesis by (simp add: wiring_def)
qed

text \<open>
  C9, amended: \<^verbatim>\<open>pso_solve\<close> changes no field of the settings of the caller but
  \<^verbatim>\<open>step\<close>, in which the main loop records the index of every step it enters. The log
  has one event for each step that ran to its end, the event of index \<open>k\<close> recorded while
  \<^verbatim>\<open>step\<close> was \<open>k\<close>. Where the loop left at the goal test of step \<open>n\<close>, after \<open>n\<close>
  steps, fewer than \<^verbatim>\<open>steps\<close>, \<^verbatim>\<open>step\<close> holds \<open>n\<close>; where it ran all its steps,
  \<^verbatim>\<open>step\<close> holds \<open>steps - 1\<close>: in both cases the index of the last step entered. With
  \<^verbatim>\<open>steps <= 0\<close> no step is entered and the settings are as the caller passed them.
\<close>

theorem settings_only_step_written:
  assumes "pso_solve f rs sol st = Some r"
  shows "settings r = st\<lparr>step := step (settings r)\<rparr> \<and>
         (steps st \<le> 0 \<longrightarrow> settings r = st \<and> step_log r = []) \<and>
         (0 < steps st \<longrightarrow>
            int (length (step_log r)) \<le> steps st \<and>
            step (settings r) =
              (if int (length (step_log r)) < steps st
               then int (length (step_log r)) else steps st - 1) \<and>
            (int (length (step_log r)) < steps st \<longrightarrow> dle (error (solution r)) (goal st))) \<and>
         (\<forall>k<length (step_log r). ev_step (step_log r ! k) = int k)"
proof -
  from assms obtain s where a: "pso_init f rs sol st = Some s" and b: "step_loop f rs 0 s = Some r"
    by (auto simp: pso_solve_def split: bind_splits)
  from step_loop_last_step[OF b pso_init_step_log[OF a]] pso_init_settings[OF a]
  show ?thesis by simp
qed

lemma run_three_steps:
  "map_option (\<lambda>r. (step (settings r), map ev_step (step_log r)))
     (pso_solve obj_two_levels rand_start2 result_demo (settings_random\<lparr>steps := 3, step := 7\<rparr>)) =
     Some (2, [0, 1, 2])"
  by (simp add: eval_simps foldl_upt settings_random_def rand_start2_def result_demo_def
      obj_two_levels_def cong: eval_congs)

text \<open>
  C9, amended, on a run of three steps that starts with 7 in the field \<^verbatim>\<open>step\<close>: all
  three steps run to their end and the field holds 2.
\<close>

theorem settings_only_step_written_witness:
  "\<exists>r. pso_solve obj_two_levels rand_start2 result_demo (settings_random\<lparr>steps := 3, step := 7\<rparr>) =
         Some r \<and>
       settings r = settings_random\<lparr>steps := 3, step := 2\<rparr> \<and>
       length (step_log r) = 3 \<and> step (settings r) = 3 - 1"
proof -
  from run_three_steps obtain r where
    r: "pso_solve obj_two_levels rand_start2 result_demo (settings_random\<lparr>steps := 3, step := 7\<rparr>) =
         Some r"
    and l: "map ev_step (step_log r) = [0, 1, 2]"
    by auto
  from l have n: "length (step_log r) = 3" by (metis length_map length_Cons list.size(3) numeral_3_eq_3)
  note t = settings_only_step_written[OF r]
  from t have a: "settings r =
      (settings_random\<lparr>steps := 3, step := 7\<rparr>)\<lparr>step := step (settings r)\<rparr>"
    by (rule conjunct1)
  from t n have b: "step (settings r) = 3 - 1" by simp
  have "settings r = settings_random\<lparr>steps := 3, step := 2\<rparr>"
    by (subst a) (simp add: b)
  with r n b show ?thesis by simp
qed

text \<open>
  C9, as the specification states it: the small run starts with 7 in the field
  \<^verbatim>\<open>step\<close> and returns with 0 there, written by \<^verbatim>\<open>settings->step = step\<close> at the
  head of the first iteration.
\<close>

theorem settings_unchanged_counterexample:
  "map_option settings (pso_solve pso_sphere rand_zero result_demo settings_small) =
     Some (settings_small\<lparr>step := 0\<rparr>) \<and> settings_small\<lparr>step := 0\<rparr> \<noteq> settings_small"
  by (simp add: eval_simps settings_small_def rand_zero_def result_demo_def pso_sphere_def
      cong: eval_congs)

end
